theory Spec2Isabelle
  imports Main "HOL-Library.AList"
begin

section \<open>Data model of the rescue simulation (src/app.py)\<close>

text \<open>
  A cell position is the Python tuple \<open>(x, y)\<close> of unbounded integers.
\<close>

type_synonym pos = "int \<times> int"

text \<open>
  The severity of a Disturbance is one of the three strings \<open>'mild'\<close>, \<open>'active'\<close>,
  \<open>'grave'\<close>; no other string is ever assigned.
\<close>

datatype severity = Mild | Active | Grave

text \<open>
  The four item classes. Objects are mutable and compared by identity (none of the classes
  defines \<open>__eq__\<close>), so they live in a store that maps an object to its fields, and
  the cell lists hold references. Every constructor call of the source passes
  \<open>self.get_next_id()\<close> as \<open>unique_id\<close>, so the identifier is the reference.
  \<open>Gate b\<close> has \<open>is_open = b\<close>; \<open>Disturbance sev t\<close> has \<open>severity = sev\<close> and
  \<open>turns_in_current_state = t\<close>.
\<close>

datatype entity = Hostage | FalseAlarm | Gate bool | Disturbance severity int

record agent =
  unique_id :: nat
  pos :: pos
  action_points :: int
  carrying_hostage :: bool

text \<open>
  The per-cell dictionary \<open>{'top': _, 'left': _, 'bottom': _, 'right': _}\<close>; the key
  \<open>'top'\<close> is the field \<open>top_wall\<close>.
\<close>

record cell_walls =
  top_wall :: bool
  left :: bool
  bottom :: bool
  right :: bool

text \<open>
  A random source is the stream of raw draws it will still deliver. \<open>self.random\<close>
  (the generator of the model instance) is a field of the model; the module-level
  generator of Python's \<open>random\<close> module is a separate stream.
\<close>

type_synonym rng = "nat \<Rightarrow> nat"

text \<open>
  \<open>RescueModel\<close>. \<open>agents\<close> is the schedule (in insertion order); the grid's cell
  lists of agents are read off the agents' \<open>pos\<close> fields. \<open>cell_contents\<close> is the
  \<open>defaultdict(list)\<close> in insertion order of its keys. \<open>walls\<close> is the dictionary
  from positions to wall flags. \<open>datacollector\<close> holds the grid matrix of every
  collected \<open>GridState\<close>; the \<open>walls\<close> entry of a collected snapshot holds the very
  dictionaries of \<open>self.walls\<close>, so it is read from \<open>walls\<close>.
\<close>

record model =
  width :: int
  height :: int
  agents :: "agent list"
  objs :: "nat \<Rightarrow> entity option"
  cell_contents :: "(pos \<times> nat list) list"
  walls :: "pos \<Rightarrow> cell_walls option"
  entry_points :: "pos list"
  running :: bool
  hostages_rescued :: int
  hostages_lost :: int
  structural_damage :: int
  false_alarms_investigated :: int
  next_entity_id :: nat
  turn_counter :: int
  min_hidden_markers :: int
  random :: rng
  datacollector :: "int list list list"

text \<open>What \<open>get_contents_at\<close> returns: agent objects and item objects in one list.\<close>

datatype content = CAgent agent | CEntity nat

subsection \<open>Contents of a cell\<close>

text \<open>\<open>self.cell_contents.get(pos, [])\<close>: no key is created by the lookup.\<close>

definition cell_get :: "model \<Rightarrow> pos \<Rightarrow> nat list" where
  "cell_get s p = (case map_of (cell_contents s) p of None \<Rightarrow> [] | Some l \<Rightarrow> l)"

text \<open>
  \<open>self.grid.get_cell_list_contents([pos])\<close>: the agents standing on the cell. Every
  call of the source passes a cell of the grid (\<open>can_move_to\<close> tests the bounds first,
  \<open>get_available_cell\<close> draws within the ranges, the agents stand on the grid). For a
  position outside the grid Mesa wraps a negative coordinate and raises \<open>IndexError\<close>
  at or beyond the size; the list below is empty there.
\<close>

definition grid_cell :: "model \<Rightarrow> pos \<Rightarrow> agent list" where
  "grid_cell s p = filter (\<lambda>a. pos a = p) (agents s)"

definition get_contents_at :: "model \<Rightarrow> pos \<Rightarrow> content list" where
  "get_contents_at s p = map CAgent (grid_cell s p) @ map CEntity (cell_get s p)"

text \<open>The \<open>isinstance\<close> tests on an item reference and on a cell content.\<close>

definition is_Hostage :: "model \<Rightarrow> nat \<Rightarrow> bool" where
  "is_Hostage s r = (case objs s r of Some Hostage \<Rightarrow> True | _ \<Rightarrow> False)"

definition is_FalseAlarm :: "model \<Rightarrow> nat \<Rightarrow> bool" where
  "is_FalseAlarm s r = (case objs s r of Some FalseAlarm \<Rightarrow> True | _ \<Rightarrow> False)"

definition is_Gate :: "model \<Rightarrow> nat \<Rightarrow> bool" where
  "is_Gate s r = (case objs s r of Some (Gate b) \<Rightarrow> True | _ \<Rightarrow> False)"

definition is_Disturbance :: "model \<Rightarrow> nat \<Rightarrow> bool" where
  "is_Disturbance s r = (case objs s r of Some (Disturbance sev t) \<Rightarrow> True | _ \<Rightarrow> False)"

fun inst_TacticalAgent :: "content \<Rightarrow> bool" where
  "inst_TacticalAgent (CAgent a) = True"
| "inst_TacticalAgent (CEntity r) = False"

fun inst_Hostage :: "model \<Rightarrow> content \<Rightarrow> bool" where
  "inst_Hostage s (CAgent a) = False"
| "inst_Hostage s (CEntity r) = is_Hostage s r"

fun inst_FalseAlarm :: "model \<Rightarrow> content \<Rightarrow> bool" where
  "inst_FalseAlarm s (CAgent a) = False"
| "inst_FalseAlarm s (CEntity r) = is_FalseAlarm s r"

fun inst_Gate :: "model \<Rightarrow> content \<Rightarrow> bool" where
  "inst_Gate s (CAgent a) = False"
| "inst_Gate s (CEntity r) = is_Gate s r"

fun inst_Disturbance :: "model \<Rightarrow> content \<Rightarrow> bool" where
  "inst_Disturbance s (CAgent a) = False"
| "inst_Disturbance s (CEntity r) = is_Disturbance s r"

text \<open>The field \<open>is_open\<close> of a content that is a Gate.\<close>

fun gate_is_open :: "model \<Rightarrow> content \<Rightarrow> bool" where
  "gate_is_open s (CEntity r) = (case objs s r of Some (Gate b) \<Rightarrow> b | _ \<Rightarrow> False)"
| "gate_is_open s (CAgent a) = False"

subsection \<open>Walls and movement\<close>

text \<open>
  \<open>walls = self.walls.get(from_pos, {})\<close> followed by \<open>walls.get('right')\<close>: a missing
  cell has no flag, and \<open>None\<close> is falsy.
\<close>

definition wall_flag :: "model \<Rightarrow> pos \<Rightarrow> (cell_walls \<Rightarrow> bool) \<Rightarrow> bool" where
  "wall_flag s p side = (case walls s p of None \<Rightarrow> False | Some w \<Rightarrow> side w)"

definition can_move_to :: "model \<Rightarrow> pos \<Rightarrow> pos \<Rightarrow> bool" where
  "can_move_to s from_pos to_pos =
    (let (from_x, from_y) = from_pos; (to_x, to_y) = to_pos in
     if \<not> (0 \<le> to_x \<and> to_x < width s \<and> 0 \<le> to_y \<and> to_y < height s) then False
     else
       let dx = to_x - from_x; dy = to_y - from_y in
       if (dx = 1 \<and> wall_flag s from_pos right) \<or> (dx = - 1 \<and> wall_flag s from_pos left) \<or>
          (dy = 1 \<and> wall_flag s from_pos bottom) \<or> (dy = - 1 \<and> wall_flag s from_pos top_wall)
       then False
       else
         let gates = filter (inst_Gate s) (get_contents_at s to_pos) in
         if gates \<noteq> [] \<and> \<not> gate_is_open s (hd gates) then False
         else True)"

definition has_wall_between :: "model \<Rightarrow> pos \<Rightarrow> pos \<Rightarrow> bool" where
  "has_wall_between s pos1 pos2 =
    (let dx = fst pos2 - fst pos1; dy = snd pos2 - snd pos1 in
     (dx = 1 \<and> wall_flag s pos1 right) \<or> (dx = - 1 \<and> wall_flag s pos1 left) \<or>
     (dy = 1 \<and> wall_flag s pos1 bottom) \<or> (dy = - 1 \<and> wall_flag s pos1 top_wall))"

text \<open>\<open>if pos in self.walls: self.walls[pos][side] = False\<close>.\<close>

definition clear_flag :: "model \<Rightarrow> pos \<Rightarrow> (cell_walls \<Rightarrow> cell_walls) \<Rightarrow> model" where
  "clear_flag s p upd =
    (case walls s p of None \<Rightarrow> s | Some w \<Rightarrow> s\<lparr>walls := (walls s)(p \<mapsto> upd w)\<rparr>)"

definition break_wall_between :: "model \<Rightarrow> pos \<Rightarrow> pos \<Rightarrow> model" where
  "break_wall_between s pos1 pos2 =
    (let dx = fst pos2 - fst pos1; dy = snd pos2 - snd pos1;
         s1 = (if dx = 1 then clear_flag s pos1 (\<lambda>w. w\<lparr>right := False\<rparr>)
               else if dx = - 1 then clear_flag s pos1 (\<lambda>w. w\<lparr>left := False\<rparr>)
               else if dy = 1 then clear_flag s pos1 (\<lambda>w. w\<lparr>bottom := False\<rparr>)
               else if dy = - 1 then clear_flag s pos1 (\<lambda>w. w\<lparr>top_wall := False\<rparr>)
               else s)
     in (if dx = 1 then clear_flag s1 pos2 (\<lambda>w. w\<lparr>left := False\<rparr>)
         else if dx = - 1 then clear_flag s1 pos2 (\<lambda>w. w\<lparr>right := False\<rparr>)
         else if dy = 1 then clear_flag s1 pos2 (\<lambda>w. w\<lparr>top_wall := False\<rparr>)
         else if dy = - 1 then clear_flag s1 pos2 (\<lambda>w. w\<lparr>bottom := False\<rparr>)
         else s1))"


subsection \<open>Items of a cell\<close>

definition get_next_id :: "model \<Rightarrow> nat \<times> model" where
  "get_next_id s = (next_entity_id s + 1, s\<lparr>next_entity_id := next_entity_id s + 1\<rparr>)"

text \<open>
  \<open>if pos in self.cell_contents and entity in self.cell_contents[pos]:
  self.cell_contents[pos].remove(entity)\<close>; \<open>list.remove\<close> deletes the first occurrence.
\<close>

definition remove_entity :: "nat \<Rightarrow> pos \<Rightarrow> model \<Rightarrow> model" where
  "remove_entity e p s =
    (if map_of (cell_contents s) p \<noteq> None \<and> e \<in> set (cell_get s p)
     then s\<lparr>cell_contents := AList.update p (remove1 e (cell_get s p)) (cell_contents s)\<rparr>
     else s)"

text \<open>\<open>self.cell_contents[pos].append(e)\<close> on the \<open>defaultdict(list)\<close>.\<close>

definition append_entity :: "nat \<Rightarrow> pos \<Rightarrow> model \<Rightarrow> model" where
  "append_entity e p s =
    s\<lparr>cell_contents := AList.update p (cell_get s p @ [e]) (cell_contents s)\<rparr>"

subsection \<open>Hazard engine\<close>

definition handle_explosion :: "pos \<Rightarrow> nat list \<Rightarrow> model \<Rightarrow> model" where
  "handle_explosion p contents s =
    (let s1 = s\<lparr>structural_damage := structural_damage s + 1\<rparr>;
         s2 = fold (\<lambda>hostage st. remove_entity hostage p (st\<lparr>hostages_lost := hostages_lost st + 1\<rparr>))
                (filter (is_Hostage s1) contents) s1
     in fold (\<lambda>disturbance st. remove_entity disturbance p st)
          (filter (is_Disturbance s2) contents) s2)"

text \<open>
  The body of the inner loop of \<open>advance_disturbances\<close> for the Disturbance \<open>d\<close> of
  the cell \<open>p\<close>; \<open>list(contents)\<close> is a copy of the cell's list as it is then.
\<close>

definition advance_one :: "pos \<Rightarrow> nat \<Rightarrow> model \<Rightarrow> model" where
  "advance_one p d s =
    (case objs s d of
       Some (Disturbance sev t) \<Rightarrow>
         let t1 = t + 1 in
         if sev = Mild \<and> t1 \<ge> 4 then s\<lparr>objs := (objs s)(d \<mapsto> Disturbance Active 0)\<rparr>
         else if sev = Active \<and> t1 \<ge> 6 then
           (let s1 = s\<lparr>objs := (objs s)(d \<mapsto> Disturbance Grave t1)\<rparr>
            in handle_explosion p (cell_get s1 p) s1)
         else s\<lparr>objs := (objs s)(d \<mapsto> Disturbance sev t1)\<rparr>
     | _ \<Rightarrow> s)"

text \<open>
  \<open>for d in [c for c in contents if isinstance(c, Disturbance)]\<close>: the list of the
  cell's Disturbances is built before the first of them is advanced.
\<close>

definition advance_cell :: "pos \<Rightarrow> model \<Rightarrow> model" where
  "advance_cell p s = fold (advance_one p) (filter (is_Disturbance s) (cell_get s p)) s"

text \<open>\<open>for pos, contents in list(self.cell_contents.items())\<close>.\<close>

definition advance_all :: "model \<Rightarrow> model" where
  "advance_all s = fold advance_cell (map fst (cell_contents s)) s"

subsection \<open>The random source\<close>

text \<open>
  Python's \<open>random.Random\<close> is outside the repository. A generator is modelled by the
  draws it delivers: \<open>randrange(n)\<close> and \<open>choice(seq)\<close> consume one draw and reduce it
  to the range; \<open>random() < 0.05\<close> consumes one draw, read in hundredths.
\<close>

definition rng_tail :: "rng \<Rightarrow> rng" where
  "rng_tail r = (\<lambda>i. r (Suc i))"

definition randrange :: "rng \<Rightarrow> int \<Rightarrow> int \<times> rng" where
  "randrange r n = (int (r 0 mod nat n), rng_tail r)"

definition choice :: "rng \<Rightarrow> 'a list \<Rightarrow> 'a \<times> rng" where
  "choice r xs = (xs ! (r 0 mod length xs), rng_tail r)"

definition random_less_005 :: "rng \<Rightarrow> bool \<times> rng" where
  "random_less_005 r = (r 0 mod 100 < 5, rng_tail r)"

datatype error = ValueError

text \<open>A closed Gate among the contents of a cell.\<close>

definition closed_gate :: "model \<Rightarrow> content \<Rightarrow> bool" where
  "closed_gate s c = (inst_Gate s c \<and> \<not> gate_is_open s c)"

text \<open>
  \<open>while True\<close>: the loop has no bound, so not returning is the value \<open>None\<close>.
  \<open>randrange\<close> raises \<open>ValueError\<close> on an empty range.
\<close>

partial_function (option) get_available_cell :: "model \<Rightarrow> (error + pos \<times> model) option" where
  "get_available_cell s =
    (if width s \<le> 0 \<or> height s \<le> 0 then Some (Inl ValueError)
     else
       let (x, r1) = randrange (random s) (width s);
           (y, r2) = randrange r1 (height s);
           s1 = s\<lparr>random := r2\<rparr>
       in if \<not> list_ex (closed_gate s1) (get_contents_at s1 (x, y)) then Some (Inr ((x, y), s1))
          else get_available_cell s1)"

text \<open>The end of \<open>advance_disturbances\<close>: the spawn draw and the placement.\<close>

definition spawn_disturbance :: "model \<Rightarrow> (error + model) option" where
  "spawn_disturbance s =
    (let (b, r1) = random_less_005 (random s); s1 = s\<lparr>random := r1\<rparr> in
     if b then
       (case get_available_cell s1 of
          None \<Rightarrow> None
        | Some (Inl e) \<Rightarrow> Some (Inl e)
        | Some (Inr (p, s2)) \<Rightarrow>
            if \<not> list_ex (inst_Disturbance s2) (get_contents_at s2 p) then
              (let (i, s3) = get_next_id s2
               in Some (Inr (append_entity i p (s3\<lparr>objs := (objs s3)(i \<mapsto> Disturbance Mild 0)\<rparr>))))
            else Some (Inr s2))
     else Some (Inr s1))"

definition advance_disturbances :: "model \<Rightarrow> (error + model) option" where
  "advance_disturbances s = spawn_disturbance (advance_all s)"

subsection \<open>Outcome\<close>

definition check_game_over :: "model \<Rightarrow> model" where
  "check_game_over s =
    (if hostages_rescued s \<ge> 7 \<or> hostages_lost s \<ge> 4 \<or> structural_damage s \<ge> 25
     then s\<lparr>running := False\<rparr> else s)"

text \<open>
  The four result strings: \<open>"VICTORIA"\<close>, \<open>"DERROTA (Muchas victimas perdidas)"\<close>,
  \<open>"DERROTA (Colapso estructural)"\<close> and \<open>"TIEMPO AGOTADO"\<close>.
\<close>

datatype result_tag = VICTORIA | DERROTA_victimas | DERROTA_colapso | TIEMPO_AGOTADO

record final_stats =
  result :: result_tag
  total_steps :: int
  stats_hostages_rescued :: int
  stats_hostages_lost :: int
  stats_structural_damage :: int
  stats_false_alarms_investigated :: int

definition get_final_stats :: "model \<Rightarrow> final_stats" where
  "get_final_stats s =
    (let result0 = TIEMPO_AGOTADO;
         result1 = (if hostages_rescued s \<ge> 7 then VICTORIA
                    else if hostages_lost s \<ge> 4 then DERROTA_victimas
                    else if structural_damage s \<ge> 25 then DERROTA_colapso
                    else result0)
     in \<lparr>result = result1, total_steps = turn_counter s,
         stats_hostages_rescued = hostages_rescued s, stats_hostages_lost = hostages_lost s,
         stats_structural_damage = structural_damage s,
         stats_false_alarms_investigated = false_alarms_investigated s\<rparr>)"


subsection \<open>Snapshot\<close>

fun content_severity :: "model \<Rightarrow> content \<Rightarrow> severity" where
  "content_severity s (CEntity r) = (case objs s r of Some (Disturbance sev t) \<Rightarrow> sev | _ \<Rightarrow> Mild)"
| "content_severity s (CAgent a) = Mild"

text \<open>The value written to \<open>grid_data[x, y]\<close>; the matrix starts as zeros.\<close>

definition cell_code :: "model \<Rightarrow> pos \<Rightarrow> int" where
  "cell_code s p =
    (let contents = get_contents_at s p in
     if list_ex inst_TacticalAgent contents then 2
     else if list_ex (inst_Hostage s) contents then 3
     else if list_ex (inst_Disturbance s) contents then
       (let d = hd (filter (inst_Disturbance s) contents) in
        if content_severity s d = Grave then 8
        else if content_severity s d = Active then 5
        else 4)
     else if list_ex (inst_FalseAlarm s) contents then 7
     else if list_ex (inst_Gate s) contents then
       (let g = hd (filter (inst_Gate s) contents) in
        if gate_is_open s g then 9 else 10)
     else if p \<in> set (entry_points s) then 6
     else 0)"

text \<open>
  \<open>grid_data.T.tolist()\<close>: the list of rows, row \<open>y\<close> holding the codes of the cells
  \<open>(0, y), (1, y), ...\<close>. The keys of the \<open>walls\<close> entry are the strings \<open>"x,y"\<close> of
  the positions; here the entry is keyed by the positions themselves.
\<close>

record grid_state =
  grid :: "int list list"
  walls_serializable :: "pos \<Rightarrow> cell_walls option"

definition get_grid_state :: "model \<Rightarrow> grid_state" where
  "get_grid_state s =
    \<lparr>grid = map (\<lambda>y. map (\<lambda>x. cell_code s (x, y)) [0..width s - 1]) [0..height s - 1],
     walls_serializable = walls s\<rparr>"

subsection \<open>The decision procedure of an agent\<close>

text \<open>
  \<open>self.model.grid.get_neighborhood(self.pos, moore=False, include_center=False)\<close> of
  Mesa's non-toroidal \<open>MultiGrid\<close>: the orthogonal neighbours that lie inside the
  grid, by increasing \<open>x\<close> and then \<open>y\<close>.
\<close>

definition get_neighborhood :: "model \<Rightarrow> pos \<Rightarrow> pos list" where
  "get_neighborhood s p =
    (let (x, y) = p in
     filter (\<lambda>(nx, ny). 0 \<le> nx \<and> nx < width s \<and> 0 \<le> ny \<and> ny < height s)
       [(x - 1, y), (x, y - 1), (x, y + 1), (x + 1, y)])"

datatype action =
  Move pos | Rescue nat | Investigate nat | Dropoff | Contain nat |
  Open_gate nat | Close_gate nat | Break_wall pos

text \<open>\<open>next((c for c in contents if isinstance(c, K)), None)\<close> for an item class \<open>K\<close>.\<close>

definition first_inst :: "(content \<Rightarrow> bool) \<Rightarrow> content list \<Rightarrow> nat option" where
  "first_inst P contents =
    (case find P contents of Some (CEntity r) \<Rightarrow> Some r | _ \<Rightarrow> None)"

definition move_actions :: "model \<Rightarrow> agent \<Rightarrow> (action \<times> int) list" where
  "move_actions s a =
    concat (map (\<lambda>neighbor_pos.
      if can_move_to s (pos a) neighbor_pos then
        (let cost = (if list_ex (inst_Disturbance s) (get_contents_at s neighbor_pos)
                     then 2 else 1)
         in if action_points a \<ge> cost then [(Move neighbor_pos, cost)] else [])
      else []) (get_neighborhood s (pos a)))"

definition rescue_actions :: "model \<Rightarrow> agent \<Rightarrow> (action \<times> int) list" where
  "rescue_actions s a =
    (if \<not> carrying_hostage a then
       (case first_inst (inst_Hostage s) (get_contents_at s (pos a)) of
          Some h \<Rightarrow> if action_points a \<ge> 2 then [(Rescue h, 2)] else []
        | None \<Rightarrow> [])
     else [])"

definition investigate_actions :: "model \<Rightarrow> agent \<Rightarrow> (action \<times> int) list" where
  "investigate_actions s a =
    (case first_inst (inst_FalseAlarm s) (get_contents_at s (pos a)) of
       Some al \<Rightarrow> if action_points a \<ge> 1 then [(Investigate al, 1)] else []
     | None \<Rightarrow> [])"

definition dropoff_actions :: "model \<Rightarrow> agent \<Rightarrow> (action \<times> int) list" where
  "dropoff_actions s a =
    (if carrying_hostage a \<and> pos a \<in> set (entry_points s) \<and> action_points a \<ge> 1
     then [(Dropoff, 1)] else [])"

definition contain_actions :: "model \<Rightarrow> agent \<Rightarrow> (action \<times> int) list" where
  "contain_actions s a =
    (case first_inst (inst_Disturbance s) (get_contents_at s (pos a)) of
       Some d \<Rightarrow>
         if content_severity s (CEntity d) = Mild \<and> action_points a \<ge> 1 then [(Contain d, 1)]
         else if content_severity s (CEntity d) = Active \<and> action_points a \<ge> 2
           then [(Contain d, 2)]
         else []
     | None \<Rightarrow> [])"

definition gate_actions :: "model \<Rightarrow> agent \<Rightarrow> (action \<times> int) list" where
  "gate_actions s a =
    (case first_inst (inst_Gate s) (get_contents_at s (pos a)) of
       Some g \<Rightarrow>
         if action_points a \<ge> 1
         then [(if gate_is_open s (CEntity g) then Close_gate g else Open_gate g, 1)]
         else []
     | None \<Rightarrow> [])"

definition break_wall_actions :: "model \<Rightarrow> agent \<Rightarrow> (action \<times> int) list" where
  "break_wall_actions s a =
    (if action_points a \<ge> 2 then
       concat (map (\<lambda>neighbor_pos.
         if has_wall_between s (pos a) neighbor_pos then [(Break_wall neighbor_pos, 2)] else [])
         (get_neighborhood s (pos a)))
     else [])"

text \<open>The list \<open>possible_actions\<close> built by one iteration of the loop of \<open>step\<close>.\<close>

definition possible_actions :: "model \<Rightarrow> agent \<Rightarrow> (action \<times> int) list" where
  "possible_actions s a =
    move_actions s a @ rescue_actions s a @ investigate_actions s a @ dropoff_actions s a @
    contain_actions s a @ gate_actions s a @ break_wall_actions s a"

text \<open>The effect of the selected action, for the agent at index \<open>i\<close> of the schedule.\<close>

definition set_agent :: "nat \<Rightarrow> agent \<Rightarrow> model \<Rightarrow> model" where
  "set_agent i a s = s\<lparr>agents := (agents s)[i := a]\<rparr>"

fun apply_action :: "nat \<Rightarrow> action \<Rightarrow> model \<Rightarrow> model" where
  "apply_action i (Move target) s = set_agent i ((agents s ! i)\<lparr>pos := target\<rparr>) s"
| "apply_action i (Rescue target) s =
     remove_entity target (pos (agents s ! i))
       (set_agent i ((agents s ! i)\<lparr>carrying_hostage := True\<rparr>) s)"
| "apply_action i (Investigate target) s =
     remove_entity target (pos (agents s ! i))
       (s\<lparr>false_alarms_investigated := false_alarms_investigated s + 1\<rparr>)"
| "apply_action i Dropoff s =
     (set_agent i ((agents s ! i)\<lparr>carrying_hostage := False\<rparr>) s)
       \<lparr>hostages_rescued := hostages_rescued s + 1\<rparr>"
| "apply_action i (Contain target) s = remove_entity target (pos (agents s ! i)) s"
| "apply_action i (Open_gate target) s = s\<lparr>objs := (objs s)(target \<mapsto> Gate True)\<rparr>"
| "apply_action i (Close_gate target) s = s\<lparr>objs := (objs s)(target \<mapsto> Gate False)\<rparr>"
| "apply_action i (Break_wall target) s =
     (let s1 = break_wall_between s (pos (agents s ! i)) target
      in s1\<lparr>structural_damage := structural_damage s1 + 1\<rparr>)"

text \<open>
  One iteration of \<open>while self.action_points > 0\<close>: \<open>None\<close> is the \<open>break\<close> on an
  empty list, otherwise the state after the action and \<open>self.action_points -= cost\<close>.
\<close>

definition agent_iter :: "nat \<Rightarrow> model \<Rightarrow> model option" where
  "agent_iter i s =
    (let possible = possible_actions s (agents s ! i) in
     if possible = [] then None
     else
       let ((act, cost), r1) = choice (random s) possible;
           s1 = apply_action i act (s\<lparr>random := r1\<rparr>);
           a1 = agents s1 ! i
       in Some (set_agent i (a1\<lparr>action_points := action_points a1 - cost\<rparr>) s1))"

text \<open>Every listed action costs 1 or 2 and is affordable; this bounds the loop.\<close>

definition cost_ok :: "agent \<Rightarrow> action \<times> int \<Rightarrow> bool" where
  "cost_ok a ac = (1 \<le> snd ac \<and> snd ac \<le> 2 \<and> snd ac \<le> action_points a)"

lemma move_actions_cost: "list_all (cost_ok a) (move_actions s a)"
  by (simp add: move_actions_def list_all_iff cost_ok_def Let_def)

lemma rescue_actions_cost: "list_all (cost_ok a) (rescue_actions s a)"
  by (simp add: rescue_actions_def cost_ok_def split: option.split)

lemma investigate_actions_cost: "list_all (cost_ok a) (investigate_actions s a)"
  by (simp add: investigate_actions_def cost_ok_def split: option.split)

lemma dropoff_actions_cost: "list_all (cost_ok a) (dropoff_actions s a)"
  by (simp add: dropoff_actions_def cost_ok_def)

lemma contain_actions_cost: "list_all (cost_ok a) (contain_actions s a)"
  by (simp add: contain_actions_def cost_ok_def split: option.split)

lemma gate_actions_cost: "list_all (cost_ok a) (gate_actions s a)"
  by (simp add: gate_actions_def cost_ok_def split: option.split)

lemma break_wall_actions_cost: "list_all (cost_ok a) (break_wall_actions s a)"
  by (simp add: break_wall_actions_def list_all_iff cost_ok_def)

lemma possible_actions_cost_all: "list_all (cost_ok a) (possible_actions s a)"
  by (simp add: possible_actions_def move_actions_cost rescue_actions_cost
      investigate_actions_cost dropoff_actions_cost contain_actions_cost gate_actions_cost
      break_wall_actions_cost)

lemma possible_actions_cost:
  assumes "(act, c) \<in> set (possible_actions s a)"
  shows "1 \<le> c \<and> c \<le> 2 \<and> c \<le> action_points a"
  using assms possible_actions_cost_all[of a s] by (auto simp: list_all_iff cost_ok_def)

lemma remove_entity_agents [simp]: "agents (remove_entity e p s) = agents s"
  by (simp add: remove_entity_def)

lemma clear_flag_agents [simp]: "agents (clear_flag s p u) = agents s"
  by (simp add: clear_flag_def split: option.splits)

lemma break_wall_between_agents [simp]: "agents (break_wall_between s p q) = agents s"
  by (simp add: break_wall_between_def Let_def)

lemma apply_action_length [simp]: "length (agents (apply_action i act s)) = length (agents s)"
  by (cases act) (simp_all add: set_agent_def Let_def)

lemma apply_action_points [simp]:
  "i < length (agents s) \<Longrightarrow>
   action_points (agents (apply_action i act s) ! i) = action_points (agents s ! i)"
  by (cases act) (simp_all add: set_agent_def Let_def)

lemma choice_mem: "xs \<noteq> [] \<Longrightarrow> fst (choice r xs) \<in> set xs"
  by (simp add: choice_def)

lemma agent_iter_decreases:
  assumes "agent_iter i s = Some s'" and "i < length (agents s)"
  shows "length (agents s') = length (agents s) \<and>
         action_points (agents s' ! i) < action_points (agents s ! i) \<and>
         0 \<le> action_points (agents s' ! i)"
proof -
  let ?pa = "possible_actions s (agents s ! i)"
  from assms(1) have ne: "?pa \<noteq> []"
    by (auto simp: agent_iter_def Let_def split: if_splits)
  obtain act c r1 where ch: "choice (random s) ?pa = ((act, c), r1)"
    by (metis prod.exhaust)
  with ne have "(act, c) \<in> set ?pa" using choice_mem[OF ne, of "random s"] by simp
  then have c: "1 \<le> c" "c \<le> action_points (agents s ! i)"
    using possible_actions_cost by blast+
  from assms(1) ne ch have s': "s' = set_agent i ((agents (apply_action i act (s\<lparr>random := r1\<rparr>)) ! i)
      \<lparr>action_points := action_points (agents (apply_action i act (s\<lparr>random := r1\<rparr>)) ! i) - c\<rparr>)
      (apply_action i act (s\<lparr>random := r1\<rparr>))"
    by (auto simp: agent_iter_def Let_def)
  show ?thesis using c assms(2) by (simp add: s' set_agent_def)
qed

function agent_loop :: "nat \<Rightarrow> model \<Rightarrow> model" where
  "agent_loop i s =
    (if i < length (agents s) \<and> action_points (agents s ! i) > 0 then
       (case agent_iter i s of None \<Rightarrow> s | Some s1 \<Rightarrow> agent_loop i s1)
     else s)"
  by pat_completeness auto
termination
proof (relation "measure (\<lambda>(i, s). nat (action_points (agents s ! i)))")
  show "wf (measure (\<lambda>(i, s). nat (action_points (agents s ! i))))" by simp
next
  fix i s s1
  assume "i < length (agents s) \<and> 0 < action_points (agents s ! i)" and "agent_iter i s = Some s1"
  then show "((i, s1), (i, s)) \<in> measure (\<lambda>(i, s). nat (action_points (agents s ! i)))"
    using agent_iter_decreases[of i s s1] by simp
qed


text \<open>\<open>TacticalAgent.step\<close> of the agent at index \<open>i\<close> of the schedule.\<close>

definition agent_step :: "nat \<Rightarrow> model \<Rightarrow> model" where
  "agent_step i s = agent_loop i (set_agent i ((agents s ! i)\<lparr>action_points := 4\<rparr>) s)"

subsection \<open>Scheduler and turn\<close>

text \<open>
  \<open>random.shuffle\<close> of Python: for \<open>i\<close> from \<open>len(x) - 1\<close> down to 1, one draw
  \<open>j\<close> below \<open>i + 1\<close> and the exchange of \<open>x[i]\<close> and \<open>x[j]\<close>.
\<close>

fun shuffle_from :: "nat \<Rightarrow> 'a list \<Rightarrow> rng \<Rightarrow> 'a list \<times> rng" where
  "shuffle_from 0 xs r = (xs, r)"
| "shuffle_from (Suc k) xs r =
     (let j = r 0 mod (Suc k + 1)
      in shuffle_from k (xs[Suc k := xs ! j, j := xs ! Suc k]) (rng_tail r))"

definition shuffle :: "rng \<Rightarrow> 'a list \<Rightarrow> 'a list \<times> rng" where
  "shuffle r xs = shuffle_from (length xs - 1) xs r"

text \<open>
  \<open>RandomActivation.step\<close> of Mesa: the agents are activated once each, in an order
  shuffled with the generator of the model. Mesa is outside the repository; the order
  of a turn is a shuffle of the insertion order, as in the versions of Mesa whose
  scheduler shuffles a fresh list of the agent keys. A version that shuffles the schedule
  in place shuffles, from the second turn of a run on, the order of the turn before;
  the first turn of a run is the same.
\<close>

definition schedule_step :: "model \<Rightarrow> model" where
  "schedule_step s =
    (let (order, r1) = shuffle (random s) [0..<length (agents s)]
     in fold agent_step order (s\<lparr>random := r1\<rparr>))"

text \<open>\<open>self.datacollector.collect(self)\<close> with the reporter \<open>get_grid_state\<close>.\<close>

definition collect :: "model \<Rightarrow> model" where
  "collect s = s\<lparr>datacollector := datacollector s @ [grid (get_grid_state s)]\<rparr>"

definition step :: "model \<Rightarrow> (error + model) option" where
  "step s =
    (let s1 = s\<lparr>turn_counter := turn_counter s + 1\<rparr>;
         s2 = schedule_step s1
     in case advance_disturbances s2 of
          None \<Rightarrow> None
        | Some (Inl e) \<Rightarrow> Some (Inl e)
        | Some (Inr s3) \<Rightarrow> Some (Inr (collect (check_game_over s3))))"


subsection \<open>Construction of the model\<close>

text \<open>The hard-coded configuration of \<open>setup_fixed_grid\<close>.\<close>

definition grid_walls :: "string list list" where
  "grid_walls =
    [[''1100'', ''1000'', ''1001'', ''1100'', ''1001'', ''1100'', ''1000'', ''1001''],
     [''0100'', ''0000'', ''0011'', ''0110'', ''0011'', ''0110'', ''0010'', ''0011''],
     [''0100'', ''0001'', ''1100'', ''1000'', ''1000'', ''1001'', ''1100'', ''1001''],
     [''0110'', ''0011'', ''0110'', ''0010'', ''0010'', ''0011'', ''0110'', ''0011''],
     [''1100'', ''1000'', ''1000'', ''1000'', ''1001'', ''1100'', ''1001'', ''1101''],
     [''0110'', ''0010'', ''0010'', ''0010'', ''0011'', ''0110'', ''0011'', ''0111'']]"

definition points_of_interest :: "(int \<times> int \<times> char) list" where
  "points_of_interest = [(2, 5, CHR ''v''), (5, 2, CHR ''f''), (5, 8, CHR ''v'')]"

definition fire_markers :: "(int \<times> int) list" where
  "fire_markers =
    [(2, 2), (2, 3), (3, 2), (3, 3), (3, 4), (3, 5), (4, 4), (5, 6), (5, 7), (6, 6)]"

definition doors :: "(int \<times> int \<times> int \<times> int) list" where
  "doors =
    [(1, 3, 1, 4), (2, 5, 2, 6), (2, 8, 3, 8), (3, 2, 3, 3),
     (4, 4, 5, 4), (4, 6, 4, 7), (6, 5, 6, 6), (6, 7, 6, 8)]"

definition entry_points_data :: "(int \<times> int) list" where
  "entry_points_data = [(1, 6), (3, 1), (4, 8), (6, 3)]"

definition num_agents :: nat where
  "num_agents = 6"

definition walls_of_str :: "string \<Rightarrow> cell_walls" where
  "walls_of_str cell_walls_str =
    \<lparr>top_wall = (cell_walls_str ! 0 = CHR ''1''), left = (cell_walls_str ! 1 = CHR ''1''),
     bottom = (cell_walls_str ! 2 = CHR ''1''), right = (cell_walls_str ! 3 = CHR ''1'')\<rparr>"

text \<open>Creation of an item with a fresh identifier in the cell \<open>p\<close>.\<close>

definition new_entity :: "entity \<Rightarrow> pos \<Rightarrow> model \<Rightarrow> model" where
  "new_entity e p s =
    (let (i, s1) = get_next_id s
     in append_entity i p (s1\<lparr>objs := (objs s1)(i \<mapsto> e)\<rparr>))"

text \<open>
  The loop over \<open>range(num_agents)\<close>; \<open>g\<close> is the generator of the module
  \<open>random\<close>, which \<open>random.choice\<close> draws from.
\<close>

fun place_agents :: "nat \<Rightarrow> rng \<Rightarrow> model \<Rightarrow> model \<times> rng" where
  "place_agents 0 g s = (s, g)"
| "place_agents (Suc n) g s =
     (let (i, s1) = get_next_id s;
          (p, g1) = choice g (entry_points s1);
          a = \<lparr>unique_id = i, pos = p, action_points = 4, carrying_hostage = False\<rparr>
      in place_agents n g1 (s1\<lparr>agents := agents s1 @ [a]\<rparr>))"

fun place_doors :: "(int \<times> int \<times> int \<times> int) list \<Rightarrow> rng \<Rightarrow> model \<Rightarrow> model \<times> rng" where
  "place_doors [] g s = (s, g)"
| "place_doors ((r1, c1, r2, c2) # ds) g s =
     (let (b, g1) = choice g [True, False]
      in place_doors ds g1 (new_entity (Gate b) (c1 - 1, r1 - 1) s))"

text \<open>
  \<open>RescueModel\<close> is only constructed with the default size 8 by 6, for which every
  index into \<open>grid_walls\<close> and every entry point is in range.
\<close>

definition setup_fixed_grid :: "rng \<Rightarrow> model \<Rightarrow> model \<times> rng" where
  "setup_fixed_grid g s =
    (let s1 = s\<lparr>walls :=
                fold (\<lambda>(col, row) w. w((col, row) \<mapsto> walls_of_str (grid_walls ! nat row ! nat col)))
                  (concat (map (\<lambda>row. map (\<lambda>col. (col, row)) [0..width s - 1]) [0..height s - 1]))
                  Map.empty\<rparr>;
         s2 = s1\<lparr>entry_points := map (\<lambda>(r, c). (c - 1, r - 1)) entry_points_data\<rparr>;
         (s3, g1) = place_agents num_agents g s2;
         s4 = fold (\<lambda>(r, c, poi_type) st.
                 if poi_type = CHR ''v'' then new_entity Hostage (c - 1, r - 1) st
                 else if poi_type = CHR ''f'' then new_entity FalseAlarm (c - 1, r - 1) st
                 else st) points_of_interest s3;
         s5 = fold (\<lambda>(r, c) st. new_entity (Disturbance Mild 0) (c - 1, r - 1) st) fire_markers s4
     in place_doors doors g1 s5)"

text \<open>
  \<open>RescueModel()\<close>: \<open>r\<close> is the generator \<open>self.random\<close> that Mesa creates for the
  model, \<open>g\<close> the generator of the module \<open>random\<close>.
\<close>

definition RescueModel :: "rng \<Rightarrow> rng \<Rightarrow> model \<times> rng" where
  "RescueModel r g =
    setup_fixed_grid g
      \<lparr>width = 8, height = 6, agents = [], objs = Map.empty, cell_contents = [],
       walls = Map.empty, entry_points = [], running = True, hostages_rescued = 0,
       hostages_lost = 0, structural_damage = 0, false_alarms_investigated = 0,
       next_entity_id = 0, turn_counter = 0, min_hidden_markers = 3, random = r,
       datacollector = []\<rparr>"


subsection \<open>A small world for concrete evaluation\<close>

text \<open>
  A grid of 3 by 2 cells with one agent, two Hostages, a closed and an open Gate, an
  active Disturbance one turn before its escalation and a FalseAlarm.
\<close>

definition demo_model :: model where
  "demo_model =
    \<lparr>width = 3, height = 2,
     agents = [\<lparr>unique_id = 1, pos = (0, 0), action_points = 4, carrying_hostage = False\<rparr>],
     objs = [2 \<mapsto> Hostage, 3 \<mapsto> Gate False, 4 \<mapsto> Disturbance Active 5, 5 \<mapsto> Gate True,
             6 \<mapsto> Hostage, 7 \<mapsto> FalseAlarm],
     cell_contents = [((0, 0), [2]), ((1, 0), [3]), ((0, 1), [4, 6]), ((1, 1), [5]), ((2, 1), [7])],
     walls = [(0, 0) \<mapsto> \<lparr>top_wall = True, left = True, bottom = False, right = False\<rparr>,
              (1, 0) \<mapsto> \<lparr>top_wall = True, left = False, bottom = False, right = True\<rparr>,
              (2, 0) \<mapsto> \<lparr>top_wall = True, left = False, bottom = False, right = True\<rparr>,
              (0, 1) \<mapsto> \<lparr>top_wall = False, left = True, bottom = True, right = False\<rparr>,
              (1, 1) \<mapsto> \<lparr>top_wall = False, left = False, bottom = True, right = False\<rparr>,
              (2, 1) \<mapsto> \<lparr>top_wall = False, left = False, bottom = True, right = True\<rparr>],
     entry_points = [(0, 0), (1, 1)], running = True, hostages_rescued = 0,
     hostages_lost = 0, structural_damage = 0, false_alarms_investigated = 0,
     next_entity_id = 7, turn_counter = 0, min_hidden_markers = 3, random = (\<lambda>i. i),
     datacollector = []\<rparr>"


section \<open>Movement legality\<close>

lemma wall_flag_upd_other:
  "q \<noteq> p \<Longrightarrow> wall_flag (s\<lparr>walls := (walls s)(q := w)\<rparr>) p side = wall_flag s p side"
  by (simp add: wall_flag_def)

lemma get_contents_at_walls [simp]:
  "get_contents_at (s\<lparr>walls := w\<rparr>) p = get_contents_at s p"
  by (simp add: get_contents_at_def grid_cell_def cell_get_def)

lemma inst_Gate_walls [simp]: "inst_Gate (s\<lparr>walls := w\<rparr>) = inst_Gate s"
proof
  fix c show "inst_Gate (s\<lparr>walls := w\<rparr>) c = inst_Gate s c"
    by (cases c) (simp_all add: is_Gate_def)
qed

lemma gate_is_open_walls [simp]: "gate_is_open (s\<lparr>walls := w\<rparr>) c = gate_is_open s c"
  by (cases c) simp_all

lemma can_move_to_iff_first_gate:
  "can_move_to s f t =
    ((0 \<le> fst t \<and> fst t < width s \<and> 0 \<le> snd t \<and> snd t < height s) \<and>
     \<not> has_wall_between s f t \<and>
     \<not> (filter (inst_Gate s) (get_contents_at s t) \<noteq> [] \<and>
        \<not> gate_is_open s (hd (filter (inst_Gate s) (get_contents_at s t)))))"
  by (cases f; cases t) (auto simp: can_move_to_def has_wall_between_def Let_def)

lemma closed_gate_first:
  assumes "length (filter (inst_Gate s) cs) \<le> 1"
  shows "list_ex (closed_gate s) cs =
         (filter (inst_Gate s) cs \<noteq> [] \<and> \<not> gate_is_open s (hd (filter (inst_Gate s) cs)))"
proof (cases "filter (inst_Gate s) cs")
  case Nil
  then have "\<forall>c \<in> set cs. \<not> inst_Gate s c" by (simp add: filter_empty_conv)
  with Nil show ?thesis by (auto simp: list_ex_iff closed_gate_def)
next
  case (Cons g gs)
  with assms have gs: "gs = []" by simp
  have "set (filter (inst_Gate s) cs) = {g}" using Cons gs by simp
  then have key: "\<And>c. (c \<in> set cs \<and> inst_Gate s c) = (c = g)" by auto
  have "list_ex (closed_gate s) cs = (\<exists>c. (c \<in> set cs \<and> inst_Gate s c) \<and> \<not> gate_is_open s c)"
    by (auto simp: list_ex_iff closed_gate_def)
  also have "\<dots> = (\<not> gate_is_open s g)" unfolding key by simp
  finally show ?thesis using Cons by simp
qed

lemma no_closed_gate_first:
  assumes "\<not> list_ex (closed_gate s) cs"
  shows "\<not> (filter (inst_Gate s) cs \<noteq> [] \<and> \<not> gate_is_open s (hd (filter (inst_Gate s) cs)))"
proof
  assume a: "filter (inst_Gate s) cs \<noteq> [] \<and> \<not> gate_is_open s (hd (filter (inst_Gate s) cs))"
  then have "hd (filter (inst_Gate s) cs) \<in> set (filter (inst_Gate s) cs)"
    using hd_in_set by blast
  then have "hd (filter (inst_Gate s) cs) \<in> set cs \<and> inst_Gate s (hd (filter (inst_Gate s) cs))"
    by simp
  with a assms show False unfolding list_ex_iff closed_gate_def by blast
qed


text \<open>
  C1. \<open>can_move_to\<close> is false when the destination is out of bounds; false when the wall
  flag of the source cell that faces the destination is set, whatever the wall flags of
  any other cell (the destination included) are; false when the destination holds a
  closed Gate (a cell holds at most one Gate); and true otherwise. In particular a
  cell whose \<open>right\<close> flag is set cannot be left eastwards, whatever the flags of the
  eastern neighbour are.
\<close>

theorem can_move_to_legality:
  "(\<not> (0 \<le> fst t \<and> fst t < width s \<and> 0 \<le> snd t \<and> snd t < height s) \<longrightarrow> \<not> can_move_to s f t) \<and>
   ((fst t - fst f = 1 \<and> wall_flag s f right) \<or> (fst t - fst f = - 1 \<and> wall_flag s f left) \<or>
    (snd t - snd f = 1 \<and> wall_flag s f bottom) \<or> (snd t - snd f = - 1 \<and> wall_flag s f top_wall)
      \<longrightarrow> \<not> can_move_to s f t) \<and>
   (\<forall>q w. q \<noteq> f \<longrightarrow> can_move_to (s\<lparr>walls := (walls s)(q := w)\<rparr>) f t = can_move_to s f t) \<and>
   (length (filter (inst_Gate s) (get_contents_at s t)) \<le> 1 \<and>
    list_ex (closed_gate s) (get_contents_at s t) \<longrightarrow> \<not> can_move_to s f t) \<and>
   ((0 \<le> fst t \<and> fst t < width s \<and> 0 \<le> snd t \<and> snd t < height s) \<and>
    \<not> ((fst t - fst f = 1 \<and> wall_flag s f right) \<or> (fst t - fst f = - 1 \<and> wall_flag s f left) \<or>
       (snd t - snd f = 1 \<and> wall_flag s f bottom) \<or> (snd t - snd f = - 1 \<and> wall_flag s f top_wall)) \<and>
    \<not> list_ex (closed_gate s) (get_contents_at s t) \<longrightarrow> can_move_to s f t) \<and>
   (wall_flag s (x, y) right \<longrightarrow>
      (\<forall>w. \<not> can_move_to (s\<lparr>walls := (walls s)((x + 1, y) := w)\<rparr>) (x, y) (x + 1, y)))"
proof (intro conjI impI allI)
  assume "\<not> (0 \<le> fst t \<and> fst t < width s \<and> 0 \<le> snd t \<and> snd t < height s)"
  then show "\<not> can_move_to s f t" unfolding can_move_to_iff_first_gate by blast
next
  assume "(fst t - fst f = 1 \<and> wall_flag s f right) \<or> (fst t - fst f = - 1 \<and> wall_flag s f left) \<or>
    (snd t - snd f = 1 \<and> wall_flag s f bottom) \<or> (snd t - snd f = - 1 \<and> wall_flag s f top_wall)"
  then show "\<not> can_move_to s f t"
    by (simp add: can_move_to_iff_first_gate has_wall_between_def Let_def)
next
  fix q w assume "q \<noteq> f"
  then show "can_move_to (s\<lparr>walls := (walls s)(q := w)\<rparr>) f t = can_move_to s f t"
    by (simp add: can_move_to_iff_first_gate has_wall_between_def Let_def wall_flag_upd_other)
next
  assume "length (filter (inst_Gate s) (get_contents_at s t)) \<le> 1 \<and>
    list_ex (closed_gate s) (get_contents_at s t)"
  then show "\<not> can_move_to s f t"
    using closed_gate_first[of s "get_contents_at s t"]
    by (simp add: can_move_to_iff_first_gate)
next
  assume "(0 \<le> fst t \<and> fst t < width s \<and> 0 \<le> snd t \<and> snd t < height s) \<and>
    \<not> ((fst t - fst f = 1 \<and> wall_flag s f right) \<or> (fst t - fst f = - 1 \<and> wall_flag s f left) \<or>
       (snd t - snd f = 1 \<and> wall_flag s f bottom) \<or> (snd t - snd f = - 1 \<and> wall_flag s f top_wall)) \<and>
    \<not> list_ex (closed_gate s) (get_contents_at s t)"
  then show "can_move_to s f t"
    using no_closed_gate_first[of s "get_contents_at s t"]
    by (simp add: can_move_to_iff_first_gate has_wall_between_def Let_def)
next
  fix w assume "wall_flag s (x, y) right"
  then have "wall_flag (s\<lparr>walls := (walls s)((x + 1, y) := w)\<rparr>) (x, y) right"
    by (simp add: wall_flag_def)
  then show "\<not> can_move_to (s\<lparr>walls := (walls s)((x + 1, y) := w)\<rparr>) (x, y) (x + 1, y)"
    by (simp add: can_move_to_iff_first_gate has_wall_between_def Let_def)
qed


lemmas demo_eval = demo_model_def get_contents_at_def grid_cell_def cell_get_def
  wall_flag_def closed_gate_def is_Gate_def list_ex_iff

theorem can_move_to_legality_witness:
  "\<not> can_move_to demo_model (0, 0) (- 1, 0) \<and>
   wall_flag demo_model (1, 0) right \<and> \<not> can_move_to demo_model (1, 0) (2, 0) \<and>
   (\<forall>w. \<not> can_move_to (demo_model\<lparr>walls := (walls demo_model)((2, 0) := w)\<rparr>) (1, 0) (2, 0)) \<and>
   list_ex (closed_gate demo_model) (get_contents_at demo_model (1, 0)) \<and>
   \<not> can_move_to demo_model (0, 0) (1, 0) \<and>
   can_move_to demo_model (0, 0) (0, 1)"
proof -
  have h1: "\<not> (0 \<le> fst (- 1 :: int, 0 :: int) \<and> fst (- 1 :: int, 0 :: int) < width demo_model \<and>
              0 \<le> snd (- 1 :: int, 0 :: int) \<and> snd (- 1 :: int, 0 :: int) < height demo_model)"
    by simp
  have h2: "wall_flag demo_model (1, 0) right"
    by (simp add: demo_eval)
  have h3: "length (filter (inst_Gate demo_model) (get_contents_at demo_model (1, 0))) \<le> 1 \<and>
            list_ex (closed_gate demo_model) (get_contents_at demo_model (1, 0))"
    by (simp add: demo_eval)
  have h4: "(0 \<le> fst (0 :: int, 1 :: int) \<and> fst (0 :: int, 1 :: int) < width demo_model \<and>
             0 \<le> snd (0 :: int, 1 :: int) \<and> snd (0 :: int, 1 :: int) < height demo_model) \<and>
    \<not> ((fst (0 :: int, 1 :: int) - fst (0 :: int, 0 :: int) = 1 \<and> wall_flag demo_model (0, 0) right) \<or>
       (fst (0 :: int, 1 :: int) - fst (0 :: int, 0 :: int) = - 1 \<and> wall_flag demo_model (0, 0) left) \<or>
       (snd (0 :: int, 1 :: int) - snd (0 :: int, 0 :: int) = 1 \<and> wall_flag demo_model (0, 0) bottom) \<or>
       (snd (0 :: int, 1 :: int) - snd (0 :: int, 0 :: int) = - 1 \<and> wall_flag demo_model (0, 0) top_wall)) \<and>
    \<not> list_ex (closed_gate demo_model) (get_contents_at demo_model (0, 1))"
    by (simp add: demo_eval is_Disturbance_def)
  have a: "\<not> can_move_to demo_model (0, 0) (- 1, 0)"
    using can_move_to_legality[of "(- 1, 0)" demo_model "(0, 0)" 1 0] h1 by blast
  have b: "\<not> can_move_to demo_model (1, 0) (2, 0)"
    using can_move_to_legality[of "(2, 0)" demo_model "(1, 0)" 1 0] h2 by simp
  have c: "\<forall>w. \<not> can_move_to (demo_model\<lparr>walls := (walls demo_model)((2, 0) := w)\<rparr>) (1, 0) (2, 0)"
    using can_move_to_legality[of "(2, 0)" demo_model "(1, 0)" 1 0] h2 by simp
  have d: "\<not> can_move_to demo_model (0, 0) (1, 0)"
    using can_move_to_legality[of "(1, 0)" demo_model "(0, 0)" 1 0] h3 by blast
  have e: "can_move_to demo_model (0, 0) (0, 1)"
    using can_move_to_legality[of "(0, 1)" demo_model "(0, 0)" 1 0] h4 by blast
  show ?thesis using a b c d e h2 h3 by blast
qed



section \<open>Breaking a wall\<close>

text \<open>Two cells are orthogonally adjacent: they differ by one step along one axis.\<close>

definition orth_adjacent :: "pos \<Rightarrow> pos \<Rightarrow> bool" where
  "orth_adjacent a b =
    ((fst b - fst a = 1 \<or> fst b - fst a = - 1) \<and> snd b = snd a \<or>
     fst b = fst a \<and> (snd b - snd a = 1 \<or> snd b - snd a = - 1))"

lemma clear_flag_Some:
  "walls s p = Some w \<Longrightarrow> clear_flag s p u = s\<lparr>walls := (walls s)(p \<mapsto> u w)\<rparr>"
  by (simp add: clear_flag_def)

lemma break_wall_between_east:
  assumes "walls s a = Some wa" "walls s b = Some wb" "fst b - fst a = 1"
  shows "break_wall_between s a b =
         s\<lparr>walls := (walls s)(a \<mapsto> wa\<lparr>right := False\<rparr>, b \<mapsto> wb\<lparr>left := False\<rparr>)\<rparr>"
proof -
  from assms(3) have ne: "a \<noteq> b" by auto
  show ?thesis using assms ne
    by (simp add: break_wall_between_def Let_def clear_flag_def)
qed

lemma break_wall_between_west:
  assumes "walls s a = Some wa" "walls s b = Some wb" "fst b - fst a = - 1"
  shows "break_wall_between s a b =
         s\<lparr>walls := (walls s)(a \<mapsto> wa\<lparr>left := False\<rparr>, b \<mapsto> wb\<lparr>right := False\<rparr>)\<rparr>"
proof -
  from assms(3) have ne: "a \<noteq> b" by auto
  show ?thesis using assms ne
    by (simp add: break_wall_between_def Let_def clear_flag_def)
qed

lemma break_wall_between_south:
  assumes "walls s a = Some wa" "walls s b = Some wb" "fst b = fst a" "snd b - snd a = 1"
  shows "break_wall_between s a b =
         s\<lparr>walls := (walls s)(a \<mapsto> wa\<lparr>bottom := False\<rparr>, b \<mapsto> wb\<lparr>top_wall := False\<rparr>)\<rparr>"
proof -
  from assms(4) have ne: "a \<noteq> b" by auto
  show ?thesis using assms ne
    by (simp add: break_wall_between_def Let_def clear_flag_def)
qed

lemma break_wall_between_north:
  assumes "walls s a = Some wa" "walls s b = Some wb" "fst b = fst a" "snd b - snd a = - 1"
  shows "break_wall_between s a b =
         s\<lparr>walls := (walls s)(a \<mapsto> wa\<lparr>top_wall := False\<rparr>, b \<mapsto> wb\<lparr>bottom := False\<rparr>)\<rparr>"
proof -
  from assms(4) have ne: "a \<noteq> b" by auto
  show ?thesis using assms ne
    by (simp add: break_wall_between_def Let_def clear_flag_def)
qed

text \<open>
  The claim's reading of the effect: of the first cell's flags only the one facing the
  second is cleared, and of the second cell's flags only the one facing the first.
\<close>

definition broken_flags :: "pos \<Rightarrow> pos \<Rightarrow> cell_walls \<Rightarrow> cell_walls \<Rightarrow> cell_walls \<times> cell_walls" where
  "broken_flags a b wa wb =
    (if fst b - fst a = 1 then (wa\<lparr>right := False\<rparr>, wb\<lparr>left := False\<rparr>)
     else if fst b - fst a = - 1 then (wa\<lparr>left := False\<rparr>, wb\<lparr>right := False\<rparr>)
     else if snd b - snd a = 1 then (wa\<lparr>bottom := False\<rparr>, wb\<lparr>top_wall := False\<rparr>)
     else (wa\<lparr>top_wall := False\<rparr>, wb\<lparr>bottom := False\<rparr>))"

lemma break_wall_between_adjacent:
  assumes "walls s a = Some wa" "walls s b = Some wb" "orth_adjacent a b"
  shows "break_wall_between s a b =
         s\<lparr>walls := (walls s)(a \<mapsto> fst (broken_flags a b wa wb), b \<mapsto> snd (broken_flags a b wa wb))\<rparr>"
proof -
  consider "fst b - fst a = 1" | "fst b - fst a = - 1"
    | "fst b = fst a" "snd b - snd a = 1" | "fst b = fst a" "snd b - snd a = - 1"
    using assms(3) unfolding orth_adjacent_def by blast
  then show ?thesis
  proof cases
    case 1 then show ?thesis using break_wall_between_east[OF assms(1,2)] by (simp add: broken_flags_def)
  next
    case 2 then show ?thesis using break_wall_between_west[OF assms(1,2)] by (simp add: broken_flags_def)
  next
    case 3 then show ?thesis using break_wall_between_south[OF assms(1,2)] by (simp add: broken_flags_def)
  next
    case 4 then show ?thesis using break_wall_between_north[OF assms(1,2)] by (simp add: broken_flags_def)
  qed
qed

text \<open>
  C7. For orthogonally adjacent cells of the grid, \<open>break_wall_between\<close> clears the flag
  of the first cell facing the second and the flag of the second facing the first,
  changes no other flag of these or of any other cell and nothing else of the model;
  afterwards \<open>has_wall_between\<close> is false in both directions, and a second call changes
  nothing.
\<close>

theorem break_wall_between_symmetric:
  assumes "walls s a = Some wa" and "walls s b = Some wb" and "orth_adjacent a b"
  shows "walls (break_wall_between s a b) a = Some (fst (broken_flags a b wa wb)) \<and>
         walls (break_wall_between s a b) b = Some (snd (broken_flags a b wa wb)) \<and>
         (\<forall>p. p \<noteq> a \<and> p \<noteq> b \<longrightarrow> walls (break_wall_between s a b) p = walls s p) \<and>
         break_wall_between s a b = s\<lparr>walls := walls (break_wall_between s a b)\<rparr> \<and>
         \<not> has_wall_between (break_wall_between s a b) a b \<and>
         \<not> has_wall_between (break_wall_between s a b) b a \<and>
         break_wall_between (break_wall_between s a b) a b = break_wall_between s a b"
proof -
  let ?s = "break_wall_between s a b"
  let ?wa = "fst (broken_flags a b wa wb)" and ?wb = "snd (broken_flags a b wa wb)"
  have ne: "a \<noteq> b" using assms(3) unfolding orth_adjacent_def by auto
  have eq: "?s = s\<lparr>walls := (walls s)(a \<mapsto> ?wa, b \<mapsto> ?wb)\<rparr>"
    by (rule break_wall_between_adjacent[OF assms])
  have wa': "walls ?s a = Some ?wa" and wb': "walls ?s b = Some ?wb"
    using ne by (simp_all add: eq)
  have other: "\<forall>p. p \<noteq> a \<and> p \<noteq> b \<longrightarrow> walls ?s p = walls s p"
    by (simp add: eq)
  have frame: "?s = s\<lparr>walls := walls ?s\<rparr>" by (simp add: eq)
  have h1: "\<not> has_wall_between ?s a b"
    using assms(3) unfolding has_wall_between_def Let_def wall_flag_def wa' orth_adjacent_def
    by (auto simp: broken_flags_def)
  have h2: "\<not> has_wall_between ?s b a"
    using assms(3) unfolding has_wall_between_def Let_def wall_flag_def wb' orth_adjacent_def
    by (auto simp: broken_flags_def)
  have idem_flags: "broken_flags a b ?wa ?wb = (?wa, ?wb)"
    by (simp add: broken_flags_def)
  have "break_wall_between ?s a b =
        ?s\<lparr>walls := (walls ?s)(a \<mapsto> fst (broken_flags a b ?wa ?wb), b \<mapsto> snd (broken_flags a b ?wa ?wb))\<rparr>"
    by (rule break_wall_between_adjacent[OF wa' wb' assms(3)])
  also have "\<dots> = ?s" unfolding idem_flags using ne by (simp add: eq)
  finally have idem: "break_wall_between ?s a b = ?s" .
  show ?thesis using wa' wb' other frame h1 h2 idem by blast
qed

theorem break_wall_between_symmetric_witness:
  "walls (break_wall_between demo_model (1, 0) (2, 0)) (1, 0) =
     Some \<lparr>top_wall = True, left = False, bottom = False, right = False\<rparr> \<and>
   \<not> has_wall_between (break_wall_between demo_model (1, 0) (2, 0)) (1, 0) (2, 0) \<and>
   \<not> has_wall_between (break_wall_between demo_model (1, 0) (2, 0)) (2, 0) (1, 0) \<and>
   break_wall_between (break_wall_between demo_model (1, 0) (2, 0)) (1, 0) (2, 0) =
     break_wall_between demo_model (1, 0) (2, 0)"
proof -
  have a: "walls demo_model (1, 0) = Some \<lparr>top_wall = True, left = False, bottom = False, right = True\<rparr>"
    by (simp add: demo_model_def)
  have b: "walls demo_model (2, 0) = Some \<lparr>top_wall = True, left = False, bottom = False, right = True\<rparr>"
    by (simp add: demo_model_def)
  have c: "orth_adjacent (1, 0) (2, 0)" by (simp add: orth_adjacent_def)
  show ?thesis using break_wall_between_symmetric[OF a b c] by (simp add: broken_flags_def)
qed



section \<open>No adjacency check in the movement test\<close>

text \<open>
  C10 as stated fails on a diagonal destination: from the cell \<open>(1, 0)\<close>, whose
  \<open>right\<close> flag is set, the cell \<open>(2, 1)\<close> is in bounds, is no orthogonal neighbour
  and holds no closed Gate, yet \<open>can_move_to\<close> is false, because \<open>dx = 1\<close> matches
  the first wall condition.
\<close>

theorem can_move_to_diagonal_counterexample:
  "0 \<le> fst (2 :: int, 1 :: int) \<and> fst (2 :: int, 1 :: int) < width demo_model \<and>
   0 \<le> snd (2 :: int, 1 :: int) \<and> snd (2 :: int, 1 :: int) < height demo_model \<and>
   (2, 1) \<notin> set (get_neighborhood demo_model (1, 0)) \<and>
   \<not> list_ex (closed_gate demo_model) (get_contents_at demo_model (2, 1)) \<and>
   \<not> can_move_to demo_model (1, 0) (2, 1)"
  by (simp add: demo_eval get_neighborhood_def can_move_to_def is_FalseAlarm_def)

text \<open>
  C10, amended. \<open>can_move_to\<close> performs no adjacency check: for every destination in
  bounds that holds no closed Gate, whether or not it is a neighbour of the source, the
  result is the negation of \<open>has_wall_between\<close>, that is of the four conditions on
  \<open>dx\<close>, \<open>dy\<close> and the source's flags; it is true whenever neither \<open>dx\<close> nor
  \<open>dy\<close> is \<open>1\<close> or \<open>- 1\<close> (the source itself, a cell two or more steps away on
  each axis it differs on), and a diagonal or otherwise distant destination with
  \<open>dx\<close> or \<open>dy\<close> equal to \<open>1\<close> or \<open>- 1\<close> is still subject to the matching flag.
\<close>

theorem can_move_to_no_adjacency_check:
  assumes "0 \<le> fst t \<and> fst t < width s \<and> 0 \<le> snd t \<and> snd t < height s"
    and "\<not> list_ex (closed_gate s) (get_contents_at s t)"
  shows "can_move_to s f t = (\<not> has_wall_between s f t) \<and>
         (fst t - fst f \<noteq> 1 \<and> fst t - fst f \<noteq> - 1 \<and> snd t - snd f \<noteq> 1 \<and> snd t - snd f \<noteq> - 1
            \<longrightarrow> can_move_to s f t) \<and>
         (has_wall_between s f t =
            ((fst t - fst f = 1 \<and> wall_flag s f right) \<or> (fst t - fst f = - 1 \<and> wall_flag s f left) \<or>
             (snd t - snd f = 1 \<and> wall_flag s f bottom) \<or> (snd t - snd f = - 1 \<and> wall_flag s f top_wall)))"
proof -
  have g: "\<not> (filter (inst_Gate s) (get_contents_at s t) \<noteq> [] \<and>
        \<not> gate_is_open s (hd (filter (inst_Gate s) (get_contents_at s t))))"
    by (rule no_closed_gate_first[OF assms(2)])
  have 1: "can_move_to s f t = (\<not> has_wall_between s f t)"
    using assms(1) g unfolding can_move_to_iff_first_gate by blast
  have 3: "has_wall_between s f t =
            ((fst t - fst f = 1 \<and> wall_flag s f right) \<or> (fst t - fst f = - 1 \<and> wall_flag s f left) \<or>
             (snd t - snd f = 1 \<and> wall_flag s f bottom) \<or> (snd t - snd f = - 1 \<and> wall_flag s f top_wall))"
    by (simp add: has_wall_between_def Let_def)
  show ?thesis using 1 3 by blast
qed

theorem can_move_to_no_adjacency_check_witness:
  "can_move_to demo_model (0, 0) (0, 0) \<and> can_move_to demo_model (0, 0) (2, 0) \<and>
   \<not> can_move_to demo_model (1, 0) (2, 1) \<and> has_wall_between demo_model (1, 0) (2, 1)"
proof -
  have b0: "0 \<le> fst (0 :: int, 0 :: int) \<and> fst (0 :: int, 0 :: int) < width demo_model \<and>
            0 \<le> snd (0 :: int, 0 :: int) \<and> snd (0 :: int, 0 :: int) < height demo_model"
    by (simp add: demo_model_def)
  have g0: "\<not> list_ex (closed_gate demo_model) (get_contents_at demo_model (0, 0))"
    by (simp add: demo_eval)
  have b1: "0 \<le> fst (2 :: int, 0 :: int) \<and> fst (2 :: int, 0 :: int) < width demo_model \<and>
            0 \<le> snd (2 :: int, 0 :: int) \<and> snd (2 :: int, 0 :: int) < height demo_model"
    by (simp add: demo_model_def)
  have g1: "\<not> list_ex (closed_gate demo_model) (get_contents_at demo_model (2, 0))"
    by (simp add: demo_eval)
  have b2: "0 \<le> fst (2 :: int, 1 :: int) \<and> fst (2 :: int, 1 :: int) < width demo_model \<and>
            0 \<le> snd (2 :: int, 1 :: int) \<and> snd (2 :: int, 1 :: int) < height demo_model"
    by (simp add: demo_model_def)
  have g2: "\<not> list_ex (closed_gate demo_model) (get_contents_at demo_model (2, 1))"
    by (simp add: demo_eval is_FalseAlarm_def)
  have w2: "wall_flag demo_model (1, 0) right" by (simp add: demo_eval)
  have r0: "can_move_to demo_model (0, 0) (0, 0)"
    using can_move_to_no_adjacency_check[OF b0 g0, of "(0, 0)"] by simp
  have r1: "can_move_to demo_model (0, 0) (2, 0)"
    using can_move_to_no_adjacency_check[OF b1 g1, of "(0, 0)"] by simp
  have r2: "\<not> can_move_to demo_model (1, 0) (2, 1) \<and> has_wall_between demo_model (1, 0) (2, 1)"
    using can_move_to_no_adjacency_check[OF b2 g2, of "(1, 0)"] w2 by simp
  show ?thesis using r0 r1 r2 by blast
qed



section \<open>Frame properties of a turn\<close>

subsection \<open>Unfolding the decision loop\<close>

declare agent_loop.simps [simp del]

lemma agent_loop_stop:
  "\<not> (i < length (agents s) \<and> action_points (agents s ! i) > 0) \<Longrightarrow> agent_loop i s = s"
  by (subst agent_loop.simps) auto

lemma agent_loop_break:
  "i < length (agents s) \<Longrightarrow> action_points (agents s ! i) > 0 \<Longrightarrow> agent_iter i s = None \<Longrightarrow>
   agent_loop i s = s"
  by (subst agent_loop.simps) simp

lemma agent_loop_cont:
  "i < length (agents s) \<Longrightarrow> action_points (agents s ! i) > 0 \<Longrightarrow> agent_iter i s = Some s1 \<Longrightarrow>
   agent_loop i s = agent_loop i s1"
  by (subst agent_loop.simps) simp

text \<open>\<open>get_available_cell\<close> consumes draws and changes nothing else.\<close>

definition random_only :: "model \<Rightarrow> error + pos \<times> model \<Rightarrow> bool" where
  "random_only s res = (\<forall>p s'. res = Inr (p, s') \<longrightarrow> (\<exists>r. s' = s\<lparr>random := r\<rparr>))"

lemma get_available_cell_random_only_aux:
  assumes "get_available_cell s = Some res"
  shows "random_only s res"
proof (rule get_available_cell.raw_induct[where P = random_only, OF _ assms])
  fix f s res
  assume IH: "\<And>x y. f x = Some y \<Longrightarrow> random_only x y"
  assume eq: "(if width s \<le> 0 \<or> height s \<le> 0 then Some (Inl ValueError)
      else let (x, r1) = randrange (random s) (width s);
               (y, r2) = randrange r1 (height s); s1 = s\<lparr>random := r2\<rparr>
           in if \<not> list_ex (closed_gate s1) (get_contents_at s1 (x, y))
              then Some (Inr ((x, y), s1)) else f s1) = Some res"
  show "random_only s res"
  proof (cases "width s \<le> 0 \<or> height s \<le> 0")
    case True
    with eq have "res = Inl ValueError" by auto
    then show ?thesis by (simp add: random_only_def)
  next
    case False
    obtain x r1 where x: "randrange (random s) (width s) = (x, r1)" by (metis prod.exhaust)
    obtain y r2 where y: "randrange r1 (height s) = (y, r2)" by (metis prod.exhaust)
    let ?s1 = "s\<lparr>random := r2\<rparr>"
    show ?thesis
    proof (cases "list_ex (closed_gate ?s1) (get_contents_at ?s1 (x, y))")
      case True
      with eq False x y have "f ?s1 = Some res" by (simp add: Let_def)
      then have "random_only ?s1 res" by (rule IH)
      then show ?thesis unfolding random_only_def by auto
    next
      case F2: False
      with eq False x y have "res = Inr ((x, y), ?s1)" by (simp add: Let_def)
      then show ?thesis unfolding random_only_def by blast
    qed
  qed
qed

lemma get_available_cell_random_only:
  "get_available_cell s = Some (Inr (p, s')) \<Longrightarrow> \<exists>r. s' = s\<lparr>random := r\<rparr>"
  using get_available_cell_random_only_aux[of s "Inr (p, s')"] by (simp add: random_only_def)

subsection \<open>The field \<open>running\<close> is untouched by the agents and the hazard engine\<close>

lemma remove_entity_running [simp]: "running (remove_entity e p s) = running s"
  by (simp add: remove_entity_def)

lemma clear_flag_running [simp]: "running (clear_flag s p u) = running s"
  by (simp add: clear_flag_def split: option.split)

lemma break_wall_between_running [simp]: "running (break_wall_between s p q) = running s"
  by (simp add: break_wall_between_def Let_def)

lemma apply_action_running [simp]: "running (apply_action i act s) = running s"
  by (cases act) (simp_all add: set_agent_def Let_def)

lemma agent_iter_running: "agent_iter i s = Some s' \<Longrightarrow> running s' = running s"
  by (auto simp: agent_iter_def Let_def set_agent_def split: if_splits prod.splits)

lemma agent_loop_running [simp]: "running (agent_loop i s) = running s"
proof (induction i s rule: agent_loop.induct)
  case (1 i s)
  show ?case
  proof (cases "i < length (agents s) \<and> action_points (agents s ! i) > 0")
    case False
    then show ?thesis by (simp add: agent_loop_stop)
  next
    case True
    show ?thesis
    proof (cases "agent_iter i s")
      case None
      with True show ?thesis by (simp add: agent_loop_break)
    next
      case (Some s1)
      with True "1.IH"[of s1] agent_iter_running[OF Some] show ?thesis
        by (simp add: agent_loop_cont)
    qed
  qed
qed

lemma agent_step_running [simp]: "running (agent_step i s) = running s"
  by (simp add: agent_step_def set_agent_def)

lemma fold_agent_step_running [simp]: "running (fold agent_step is s) = running s"
  by (induction "is" arbitrary: s) simp_all

lemma schedule_step_running [simp]: "running (schedule_step s) = running s"
  by (simp add: schedule_step_def split: prod.split)

lemma fold_remove_running [simp]:
  "running (fold (\<lambda>d st. remove_entity d p st) ds s) = running s"
  by (induction ds arbitrary: s) simp_all

lemma fold_lost_running [simp]:
  "running (fold (\<lambda>h st. remove_entity h p (st\<lparr>hostages_lost := hostages_lost st + 1\<rparr>)) hs s)
   = running s"
  by (induction hs arbitrary: s) simp_all

lemma handle_explosion_running [simp]: "running (handle_explosion p cs s) = running s"
  by (simp add: handle_explosion_def Let_def)

lemma advance_one_running [simp]: "running (advance_one p d s) = running s"
  by (simp add: advance_one_def Let_def split: option.split entity.split)

lemma fold_advance_one_running [simp]: "running (fold (advance_one p) ds s) = running s"
  by (induction ds arbitrary: s) simp_all

lemma advance_cell_running [simp]: "running (advance_cell p s) = running s"
  by (simp add: advance_cell_def)

lemma advance_all_running [simp]: "running (advance_all s) = running s"
proof -
  have "running (fold advance_cell ps s) = running s" for ps
    by (induction ps arbitrary: s) simp_all
  then show ?thesis by (simp add: advance_all_def)
qed

lemma spawn_disturbance_running:
  "spawn_disturbance s = Some (Inr s') \<Longrightarrow> running s' = running s"
proof -
  assume a: "spawn_disturbance s = Some (Inr s')"
  obtain b r1 where b: "random_less_005 (random s) = (b, r1)" by (metis prod.exhaust)
  show ?thesis
  proof (cases b)
    case False
    with a b show ?thesis by (auto simp: spawn_disturbance_def)
  next
    case True
    with a b obtain p s2 where g: "get_available_cell (s\<lparr>random := r1\<rparr>) = Some (Inr (p, s2))"
      by (auto simp: spawn_disturbance_def split: option.splits sum.splits)
    from get_available_cell_random_only[OF g] obtain r where s2: "s2 = s\<lparr>random := r\<rparr>" by auto
    from a b True g show ?thesis
      by (auto simp: spawn_disturbance_def s2 get_next_id_def append_entity_def split: if_splits)
  qed
qed

lemma advance_disturbances_running:
  "advance_disturbances s = Some (Inr s') \<Longrightarrow> running s' = running s"
  using spawn_disturbance_running[of "advance_all s" s'] by (simp add: advance_disturbances_def)

subsection \<open>The field \<open>turn_counter\<close> is untouched by the agents and the hazard engine\<close>

lemma remove_entity_turn_counter [simp]: "turn_counter (remove_entity e p s) = turn_counter s"
  by (simp add: remove_entity_def)

lemma clear_flag_turn_counter [simp]: "turn_counter (clear_flag s p u) = turn_counter s"
  by (simp add: clear_flag_def split: option.split)

lemma break_wall_between_turn_counter [simp]: "turn_counter (break_wall_between s p q) = turn_counter s"
  by (simp add: break_wall_between_def Let_def)

lemma apply_action_turn_counter [simp]: "turn_counter (apply_action i act s) = turn_counter s"
  by (cases act) (simp_all add: set_agent_def Let_def)

lemma agent_iter_turn_counter: "agent_iter i s = Some s' \<Longrightarrow> turn_counter s' = turn_counter s"
  by (auto simp: agent_iter_def Let_def set_agent_def split: if_splits prod.splits)

lemma agent_loop_turn_counter [simp]: "turn_counter (agent_loop i s) = turn_counter s"
proof (induction i s rule: agent_loop.induct)
  case (1 i s)
  show ?case
  proof (cases "i < length (agents s) \<and> action_points (agents s ! i) > 0")
    case False
    then show ?thesis by (simp add: agent_loop_stop)
  next
    case True
    show ?thesis
    proof (cases "agent_iter i s")
      case None
      with True show ?thesis by (simp add: agent_loop_break)
    next
      case (Some s1)
      with True "1.IH"[of s1] agent_iter_turn_counter[OF Some] show ?thesis
        by (simp add: agent_loop_cont)
    qed
  qed
qed

lemma agent_step_turn_counter [simp]: "turn_counter (agent_step i s) = turn_counter s"
  by (simp add: agent_step_def set_agent_def)

lemma fold_agent_step_turn_counter [simp]: "turn_counter (fold agent_step is s) = turn_counter s"
  by (induction "is" arbitrary: s) simp_all

lemma schedule_step_turn_counter [simp]: "turn_counter (schedule_step s) = turn_counter s"
  by (simp add: schedule_step_def split: prod.split)

lemma fold_remove_turn_counter [simp]:
  "turn_counter (fold (\<lambda>d st. remove_entity d p st) ds s) = turn_counter s"
  by (induction ds arbitrary: s) simp_all

lemma fold_lost_turn_counter [simp]:
  "turn_counter (fold (\<lambda>h st. remove_entity h p (st\<lparr>hostages_lost := hostages_lost st + 1\<rparr>)) hs s)
   = turn_counter s"
  by (induction hs arbitrary: s) simp_all

lemma handle_explosion_turn_counter [simp]: "turn_counter (handle_explosion p cs s) = turn_counter s"
  by (simp add: handle_explosion_def Let_def)

lemma advance_one_turn_counter [simp]: "turn_counter (advance_one p d s) = turn_counter s"
  by (simp add: advance_one_def Let_def split: option.split entity.split)

lemma fold_advance_one_turn_counter [simp]: "turn_counter (fold (advance_one p) ds s) = turn_counter s"
  by (induction ds arbitrary: s) simp_all

lemma advance_cell_turn_counter [simp]: "turn_counter (advance_cell p s) = turn_counter s"
  by (simp add: advance_cell_def)

lemma advance_all_turn_counter [simp]: "turn_counter (advance_all s) = turn_counter s"
proof -
  have "turn_counter (fold advance_cell ps s) = turn_counter s" for ps
    by (induction ps arbitrary: s) simp_all
  then show ?thesis by (simp add: advance_all_def)
qed

lemma spawn_disturbance_turn_counter:
  "spawn_disturbance s = Some (Inr s') \<Longrightarrow> turn_counter s' = turn_counter s"
proof -
  assume a: "spawn_disturbance s = Some (Inr s')"
  obtain b r1 where b: "random_less_005 (random s) = (b, r1)" by (metis prod.exhaust)
  show ?thesis
  proof (cases b)
    case False
    with a b show ?thesis by (auto simp: spawn_disturbance_def)
  next
    case True
    with a b obtain p s2 where g: "get_available_cell (s\<lparr>random := r1\<rparr>) = Some (Inr (p, s2))"
      by (auto simp: spawn_disturbance_def split: option.splits sum.splits)
    from get_available_cell_random_only[OF g] obtain r where s2: "s2 = s\<lparr>random := r\<rparr>" by auto
    from a b True g show ?thesis
      by (auto simp: spawn_disturbance_def s2 get_next_id_def append_entity_def split: if_splits)
  qed
qed

lemma advance_disturbances_turn_counter:
  "advance_disturbances s = Some (Inr s') \<Longrightarrow> turn_counter s' = turn_counter s"
  using spawn_disturbance_turn_counter[of "advance_all s" s'] by (simp add: advance_disturbances_def)


section \<open>One turn on concrete worlds\<close>

text \<open>
  One agent on the only cell of a 1 by 1 grid, which is an entry point and holds one
  Hostage; no hazard, no Gate. \<open>r\<close> is the generator of the model.
\<close>

definition rescue_scenario :: "rng \<Rightarrow> model" where
  "rescue_scenario r =
    \<lparr>width = 1, height = 1,
     agents = [\<lparr>unique_id = 1, pos = (0, 0), action_points = 4, carrying_hostage = False\<rparr>],
     objs = [2 \<mapsto> Hostage], cell_contents = [((0, 0), [2])],
     walls = [(0, 0) \<mapsto> \<lparr>top_wall = True, left = True, bottom = True, right = True\<rparr>],
     entry_points = [(0, 0)], running = True, hostages_rescued = 0,
     hostages_lost = 0, structural_damage = 0, false_alarms_investigated = 0,
     next_entity_id = 2, turn_counter = 0, min_hidden_markers = 3, random = r,
     datacollector = []\<rparr>"

text \<open>The same on a grid of 2 by 1 cells without walls: the agent may also move.\<close>

definition corridor_scenario :: "rng \<Rightarrow> model" where
  "corridor_scenario r =
    \<lparr>width = 2, height = 1,
     agents = [\<lparr>unique_id = 1, pos = (0, 0), action_points = 4, carrying_hostage = False\<rparr>],
     objs = [2 \<mapsto> Hostage], cell_contents = [((0, 0), [2])],
     walls = [(0, 0) \<mapsto> \<lparr>top_wall = False, left = False, bottom = False, right = False\<rparr>,
              (1, 0) \<mapsto> \<lparr>top_wall = False, left = False, bottom = False, right = False\<rparr>],
     entry_points = [(0, 0)], running = True, hostages_rescued = 0,
     hostages_lost = 0, structural_damage = 0, false_alarms_investigated = 0,
     next_entity_id = 2, turn_counter = 0, min_hidden_markers = 3, random = r,
     datacollector = []\<rparr>"

text \<open>The definitions that evaluate a turn on a concrete world.\<close>

lemmas eval_defs = get_contents_at_def grid_cell_def cell_get_def
  wall_flag_def closed_gate_def is_Gate_def is_Hostage_def is_FalseAlarm_def is_Disturbance_def
  possible_actions_def move_actions_def rescue_actions_def investigate_actions_def
  dropoff_actions_def contain_actions_def gate_actions_def break_wall_actions_def
  get_neighborhood_def first_inst_def can_move_to_def has_wall_between_def
  choice_def rng_tail_def set_agent_def remove_entity_def agent_iter_def Let_def
  step_def schedule_step_def shuffle_def agent_step_def
  agent_loop.simps advance_disturbances_def advance_all_def advance_cell_def spawn_disturbance_def
  random_less_005_def get_available_cell.simps randrange_def check_game_over_def collect_def
  get_grid_state_def cell_code_def get_next_id_def append_entity_def

lemma step_rescue_scenario:
  "step (rescue_scenario r) =
    Some (Inr
     (if r (Suc (Suc 0)) mod 100 < 5 then
       \<lparr>width = 1, height = 1,
        agents = [\<lparr>unique_id = 1, pos = (0, 0), action_points = 1, carrying_hostage = False\<rparr>],
        objs = [2 \<mapsto> Hostage, 3 \<mapsto> Disturbance Mild 0], cell_contents = [((0, 0), [3])],
        walls = [(0, 0) \<mapsto> \<lparr>top_wall = True, left = True, bottom = True, right = True\<rparr>],
        entry_points = [(0, 0)], running = True, hostages_rescued = 1,
        hostages_lost = 0, structural_damage = 0, false_alarms_investigated = 0,
        next_entity_id = 3, turn_counter = 1, min_hidden_markers = 3,
        random = (\<lambda>i. r (Suc (Suc (Suc (Suc (Suc i)))))), datacollector = [[[2]]]\<rparr>
      else
       \<lparr>width = 1, height = 1,
        agents = [\<lparr>unique_id = 1, pos = (0, 0), action_points = 1, carrying_hostage = False\<rparr>],
        objs = [2 \<mapsto> Hostage], cell_contents = [((0, 0), [])],
        walls = [(0, 0) \<mapsto> \<lparr>top_wall = True, left = True, bottom = True, right = True\<rparr>],
        entry_points = [(0, 0)], running = True, hostages_rescued = 1,
        hostages_lost = 0, structural_damage = 0, false_alarms_investigated = 0,
        next_entity_id = 2, turn_counter = 1, min_hidden_markers = 3,
        random = (\<lambda>i. r (Suc (Suc (Suc i)))), datacollector = [[[2]]]\<rparr>))"
  by (simp add: rescue_scenario_def eval_defs)

lemma step_corridor_scenario:
  "\<exists>s'. step (corridor_scenario (\<lambda>i. 0)) = Some (Inr s') \<and> hostages_rescued s' = 0 \<and>
        map carrying_hostage (agents s') = [False] \<and> map action_points (agents s') = [0] \<and>
        list_ex (inst_Hostage s') (get_contents_at s' (0, 0))"
  by (simp add: corridor_scenario_def eval_defs)

lemma step_turn_counter:
  assumes "step s = Some (Inr s')"
  shows "turn_counter s' = turn_counter s + 1"
proof -
  from assms obtain s3 where
    a: "advance_disturbances (schedule_step (s\<lparr>turn_counter := turn_counter s + 1\<rparr>)) = Some (Inr s3)"
    and s': "s' = collect (check_game_over s3)"
    by (auto simp: step_def Let_def split: option.splits sum.splits)
  have "turn_counter s3 = turn_counter s + 1"
    using advance_disturbances_turn_counter[OF a] by simp
  then show ?thesis by (simp add: s' collect_def check_game_over_def)
qed

lemma step_running:
  assumes "step s = Some (Inr s')"
  shows "running s' = (running s \<and>
           \<not> (hostages_rescued s' \<ge> 7 \<or> hostages_lost s' \<ge> 4 \<or> structural_damage s' \<ge> 25))"
proof -
  from assms obtain s3 where
    a: "advance_disturbances (schedule_step (s\<lparr>turn_counter := turn_counter s + 1\<rparr>)) = Some (Inr s3)"
    and s': "s' = collect (check_game_over s3)"
    by (auto simp: step_def Let_def split: option.splits sum.splits)
  have "running s3 = running s"
    using advance_disturbances_running[OF a] by simp
  then show ?thesis by (auto simp: s' collect_def check_game_over_def)
qed


section \<open>Outcome evaluation\<close>

text \<open>
  C8. \<open>check_game_over\<close> changes only \<open>running\<close>, which stays true exactly when it
  was true and none of \<open>hostages_rescued \<ge> 7\<close>, \<open>hostages_lost \<ge> 4\<close>,
  \<open>structural_damage \<ge> 25\<close> holds; this is evaluated at the end of every turn, on the
  counters the turn has produced. The result tag of \<open>get_final_stats\<close> follows the
  priority victory, then defeat by casualties, then defeat by collapse, then timeout.
\<close>

theorem outcome_priority:
  "running (check_game_over s) =
     (running s \<and> \<not> (hostages_rescued s \<ge> 7 \<or> hostages_lost s \<ge> 4 \<or> structural_damage s \<ge> 25)) \<and>
   check_game_over s = s\<lparr>running := running (check_game_over s)\<rparr> \<and>
   (result (get_final_stats s) = VICTORIA) = (hostages_rescued s \<ge> 7) \<and>
   (result (get_final_stats s) = DERROTA_victimas) =
     (hostages_rescued s < 7 \<and> hostages_lost s \<ge> 4) \<and>
   (result (get_final_stats s) = DERROTA_colapso) =
     (hostages_rescued s < 7 \<and> hostages_lost s < 4 \<and> structural_damage s \<ge> 25) \<and>
   (result (get_final_stats s) = TIEMPO_AGOTADO) =
     (hostages_rescued s < 7 \<and> hostages_lost s < 4 \<and> structural_damage s < 25) \<and>
   (\<forall>s'. step s = Some (Inr s') \<longrightarrow>
      running s' = (running s \<and>
        \<not> (hostages_rescued s' \<ge> 7 \<or> hostages_lost s' \<ge> 4 \<or> structural_damage s' \<ge> 25)))"
proof -
  have 1: "running (check_game_over s) =
     (running s \<and> \<not> (hostages_rescued s \<ge> 7 \<or> hostages_lost s \<ge> 4 \<or> structural_damage s \<ge> 25))"
    by (simp add: check_game_over_def)
  have 2: "check_game_over s = s\<lparr>running := running (check_game_over s)\<rparr>"
    by (simp add: check_game_over_def)
  have 3: "(result (get_final_stats s) = VICTORIA) = (hostages_rescued s \<ge> 7)"
    by (simp add: get_final_stats_def)
  have 4: "(result (get_final_stats s) = DERROTA_victimas) =
     (hostages_rescued s < 7 \<and> hostages_lost s \<ge> 4)"
    by (simp add: get_final_stats_def)
  have 5: "(result (get_final_stats s) = DERROTA_colapso) =
     (hostages_rescued s < 7 \<and> hostages_lost s < 4 \<and> structural_damage s \<ge> 25)"
    by (simp add: get_final_stats_def)
  have 6: "(result (get_final_stats s) = TIEMPO_AGOTADO) =
     (hostages_rescued s < 7 \<and> hostages_lost s < 4 \<and> structural_damage s < 25)"
    by (auto simp: get_final_stats_def)
  show ?thesis using 1 2 3 4 5 6 step_running by blast
qed

theorem outcome_priority_witness:
  "\<exists>s'. step (rescue_scenario (\<lambda>i. 7)) = Some (Inr s') \<and> running s' \<and>
        hostages_rescued s' = 1 \<and> hostages_lost s' = 0 \<and> structural_damage s' = 0"
proof -
  obtain s' where st: "step (rescue_scenario (\<lambda>i. 7)) = Some (Inr s')"
    and c: "hostages_rescued s' = 1" "hostages_lost s' = 0" "structural_damage s' = 0"
    by (simp add: step_rescue_scenario)
  have r: "running (rescue_scenario (\<lambda>i. 7))" by (simp add: rescue_scenario_def)
  have "running s'"
    using outcome_priority[of "rescue_scenario (\<lambda>i. 7)"] st r c by simp
  with st c show ?thesis by blast
qed


section \<open>The single-agent rescue scenario\<close>

text \<open>
  C9 as stated fails. The thresholds are the constants 7, 4 and 25 of
  \<open>check_game_over\<close> and \<open>get_final_stats\<close>, so after the rescue and the drop-off of
  the only Hostage the run is still running and the result tag is not the victory
  tag; and the actions are selected at random among the legal ones, so on a grid with
  a second cell there are draws for which the agent only moves and rescues nobody.
\<close>

theorem single_agent_turn_counterexample:
  "(\<exists>s'. step (rescue_scenario (\<lambda>i. 7)) = Some (Inr s') \<and> hostages_rescued s' = 1 \<and>
         turn_counter s' = 1 \<and> running s' \<and> result (get_final_stats s') \<noteq> VICTORIA) \<and>
   (\<exists>s'. step (corridor_scenario (\<lambda>i. 0)) = Some (Inr s') \<and> hostages_rescued s' = 0 \<and>
         list_ex (inst_Hostage s') (get_contents_at s' (0, 0)))"
proof -
  have "\<exists>s'. step (rescue_scenario (\<lambda>i. 7)) = Some (Inr s') \<and> hostages_rescued s' = 1 \<and>
         turn_counter s' = 1 \<and> running s' \<and> result (get_final_stats s') \<noteq> VICTORIA"
    by (simp add: step_rescue_scenario get_final_stats_def)
  then show ?thesis using step_corridor_scenario by blast
qed

text \<open>
  C9, amended. Every turn increments \<open>turn_counter\<close> by one and leaves \<open>running\<close>
  true exactly when it was true and none of the fixed thresholds 7, 4, 25 is reached.
  In the scenario on a 1 by 1 grid, where rescue and then drop-off are the only legal
  actions, for every stream of draws one turn rescues and drops off the Hostage
  (cost 2 + 1 of the 4 action points), \<open>hostages_rescued\<close> and \<open>turn_counter\<close> are
  1, and the run continues: \<open>running\<close> is true and the result tag is the timeout
  tag.
\<close>

theorem single_agent_turn:
  "(\<forall>s'. step s = Some (Inr s') \<longrightarrow>
      turn_counter s' = turn_counter s + 1 \<and>
      running s' = (running s \<and>
        \<not> (hostages_rescued s' \<ge> 7 \<or> hostages_lost s' \<ge> 4 \<or> structural_damage s' \<ge> 25))) \<and>
   (\<exists>s'. step (rescue_scenario r) = Some (Inr s') \<and>
      hostages_rescued s' = 1 \<and> turn_counter s' = 1 \<and>
      map carrying_hostage (agents s') = [False] \<and>
      map action_points (agents s') = [4 - 2 - 1] \<and>
      \<not> list_ex (inst_Hostage s') (get_contents_at s' (0, 0)) \<and>
      running s' \<and> result (get_final_stats s') = TIEMPO_AGOTADO)"
proof -
  have "\<exists>s'. step (rescue_scenario r) = Some (Inr s') \<and>
      hostages_rescued s' = 1 \<and> turn_counter s' = 1 \<and>
      map carrying_hostage (agents s') = [False] \<and>
      map action_points (agents s') = [4 - 2 - 1] \<and>
      \<not> list_ex (inst_Hostage s') (get_contents_at s' (0, 0)) \<and>
      running s' \<and> result (get_final_stats s') = TIEMPO_AGOTADO"
    by (simp add: step_rescue_scenario get_final_stats_def get_contents_at_def grid_cell_def
        cell_get_def is_Hostage_def)
  then show ?thesis using step_turn_counter step_running by blast
qed

theorem single_agent_turn_witness:
  "\<exists>s'. step (rescue_scenario (\<lambda>i. 7)) = Some (Inr s') \<and> turn_counter s' = 1 \<and> running s'"
proof -
  obtain s' where st: "step (rescue_scenario (\<lambda>i. 7)) = Some (Inr s')"
    and c: "hostages_rescued s' = 1" "hostages_lost s' = 0" "structural_damage s' = 0"
    by (simp add: step_rescue_scenario)
  have r: "running (rescue_scenario (\<lambda>i. 7))" "turn_counter (rescue_scenario (\<lambda>i. 7)) = 0"
    by (simp_all add: rescue_scenario_def)
  have "turn_counter s' = 1 \<and> running s'"
    using single_agent_turn[of "rescue_scenario (\<lambda>i. 7)"] st r c by simp
  with st show ?thesis by blast
qed



section \<open>Snapshot encoding\<close>

text \<open>
  C4 as stated fails: the cell \<open>(1, 1)\<close> of the small world is an entry point and
  holds an open Gate and nothing else, and the snapshot shows the code 9 of the open
  Gate, not the entry-point code 6.
\<close>

theorem snapshot_entry_gate_counterexample:
  "(1, 1) \<in> set (entry_points demo_model) \<and>
   list_ex (inst_Gate demo_model) (get_contents_at demo_model (1, 1)) \<and>
   \<not> list_ex inst_TacticalAgent (get_contents_at demo_model (1, 1)) \<and>
   \<not> list_ex (inst_Hostage demo_model) (get_contents_at demo_model (1, 1)) \<and>
   \<not> list_ex (inst_Disturbance demo_model) (get_contents_at demo_model (1, 1)) \<and>
   \<not> list_ex (inst_FalseAlarm demo_model) (get_contents_at demo_model (1, 1)) \<and>
   grid (get_grid_state demo_model) ! 1 ! 1 = 9 \<and>
   grid (get_grid_state demo_model) ! 1 ! 1 \<noteq> 6"
  by (simp add: demo_eval get_grid_state_def cell_code_def is_Hostage_def is_Disturbance_def
      is_FalseAlarm_def upto_rec1)

lemma grid_nth:
  assumes "0 \<le> x" "x < width s" "0 \<le> y" "y < height s"
  shows "grid (get_grid_state s) ! nat y ! nat x = cell_code s (x, y)"
proof -
  have ly: "nat y < length [0..height s - 1]" using assms by simp
  have lx: "nat x < length [0..width s - 1]" using assms by simp
  have ny: "[0..height s - 1] ! nat y = y" using assms by (simp add: nth_upto)
  have nx: "[0..width s - 1] ! nat x = x" using assms by (simp add: nth_upto)
  show ?thesis using ly lx ny nx by (simp add: get_grid_state_def)
qed

lemma find_hd_filter:
  "find P xs = Some d \<Longrightarrow> hd (filter P xs) = d \<and> list_ex P xs"
  by (induction xs) (auto split: if_splits)

text \<open>
  C4, amended. For every cell of the grid the snapshot matrix (row \<open>y\<close>, column \<open>x\<close>)
  encodes the occupant of highest priority in the order agent (2), Hostage (3),
  Disturbance by the severity of the first one (8 grave, 5 active, 4 mild), FalseAlarm
  (7), Gate by the state of the first one (9 open, 10 closed), entry point (6), empty
  (0): a Gate takes precedence over the entry-point marker.
\<close>

theorem snapshot_priority:
  assumes "0 \<le> x \<and> x < width s \<and> 0 \<le> y \<and> y < height s"
  shows "(let contents = get_contents_at s (x, y); code = grid (get_grid_state s) ! nat y ! nat x in
     (list_ex inst_TacticalAgent contents \<longrightarrow> code = 2) \<and>
     (\<not> list_ex inst_TacticalAgent contents \<and> list_ex (inst_Hostage s) contents \<longrightarrow> code = 3) \<and>
     (\<not> list_ex inst_TacticalAgent contents \<and> \<not> list_ex (inst_Hostage s) contents \<longrightarrow>
        (\<forall>d. find (inst_Disturbance s) contents = Some d \<longrightarrow>
           code = (if content_severity s d = Grave then 8
                   else if content_severity s d = Active then 5 else 4))) \<and>
     (\<not> list_ex inst_TacticalAgent contents \<and> \<not> list_ex (inst_Hostage s) contents \<and>
      \<not> list_ex (inst_Disturbance s) contents \<and> list_ex (inst_FalseAlarm s) contents \<longrightarrow> code = 7) \<and>
     (\<not> list_ex inst_TacticalAgent contents \<and> \<not> list_ex (inst_Hostage s) contents \<and>
      \<not> list_ex (inst_Disturbance s) contents \<and> \<not> list_ex (inst_FalseAlarm s) contents \<longrightarrow>
        (\<forall>g. find (inst_Gate s) contents = Some g \<longrightarrow>
           code = (if gate_is_open s g then 9 else 10))) \<and>
     (\<not> list_ex inst_TacticalAgent contents \<and> \<not> list_ex (inst_Hostage s) contents \<and>
      \<not> list_ex (inst_Disturbance s) contents \<and> \<not> list_ex (inst_FalseAlarm s) contents \<and>
      \<not> list_ex (inst_Gate s) contents \<longrightarrow>
        code = (if (x, y) \<in> set (entry_points s) then 6 else 0)))"
proof -
  let ?cs = "get_contents_at s (x, y)"
  have code: "grid (get_grid_state s) ! nat y ! nat x = cell_code s (x, y)"
    using assms by (simp add: grid_nth)
  have 1: "list_ex inst_TacticalAgent ?cs \<longrightarrow> cell_code s (x, y) = 2"
    by (simp add: cell_code_def Let_def)
  have 2: "\<not> list_ex inst_TacticalAgent ?cs \<and> list_ex (inst_Hostage s) ?cs \<longrightarrow> cell_code s (x, y) = 3"
    by (simp add: cell_code_def Let_def)
  have 3: "\<not> list_ex inst_TacticalAgent ?cs \<and> \<not> list_ex (inst_Hostage s) ?cs \<longrightarrow>
        (\<forall>d. find (inst_Disturbance s) ?cs = Some d \<longrightarrow>
           cell_code s (x, y) = (if content_severity s d = Grave then 8
                   else if content_severity s d = Active then 5 else 4))"
  proof (intro impI allI)
    fix d assume n: "\<not> list_ex inst_TacticalAgent ?cs \<and> \<not> list_ex (inst_Hostage s) ?cs"
      and f: "find (inst_Disturbance s) ?cs = Some d"
    from find_hd_filter[OF f] have "hd (filter (inst_Disturbance s) ?cs) = d"
      and "list_ex (inst_Disturbance s) ?cs" by simp_all
    with n show "cell_code s (x, y) = (if content_severity s d = Grave then 8
                   else if content_severity s d = Active then 5 else 4)"
      by (simp add: cell_code_def Let_def)
  qed
  have 4: "\<not> list_ex inst_TacticalAgent ?cs \<and> \<not> list_ex (inst_Hostage s) ?cs \<and>
      \<not> list_ex (inst_Disturbance s) ?cs \<and> list_ex (inst_FalseAlarm s) ?cs \<longrightarrow> cell_code s (x, y) = 7"
    by (simp add: cell_code_def Let_def)
  have 5: "\<not> list_ex inst_TacticalAgent ?cs \<and> \<not> list_ex (inst_Hostage s) ?cs \<and>
      \<not> list_ex (inst_Disturbance s) ?cs \<and> \<not> list_ex (inst_FalseAlarm s) ?cs \<longrightarrow>
        (\<forall>g. find (inst_Gate s) ?cs = Some g \<longrightarrow>
           cell_code s (x, y) = (if gate_is_open s g then 9 else 10))"
  proof (intro impI allI)
    fix g assume n: "\<not> list_ex inst_TacticalAgent ?cs \<and> \<not> list_ex (inst_Hostage s) ?cs \<and>
      \<not> list_ex (inst_Disturbance s) ?cs \<and> \<not> list_ex (inst_FalseAlarm s) ?cs"
      and f: "find (inst_Gate s) ?cs = Some g"
    from find_hd_filter[OF f] have "hd (filter (inst_Gate s) ?cs) = g"
      and "list_ex (inst_Gate s) ?cs" by simp_all
    with n show "cell_code s (x, y) = (if gate_is_open s g then 9 else 10)"
      by (simp add: cell_code_def Let_def)
  qed
  have 6: "\<not> list_ex inst_TacticalAgent ?cs \<and> \<not> list_ex (inst_Hostage s) ?cs \<and>
      \<not> list_ex (inst_Disturbance s) ?cs \<and> \<not> list_ex (inst_FalseAlarm s) ?cs \<and>
      \<not> list_ex (inst_Gate s) ?cs \<longrightarrow>
        cell_code s (x, y) = (if (x, y) \<in> set (entry_points s) then 6 else 0)"
    by (simp add: cell_code_def Let_def)
  show ?thesis unfolding Let_def code using 1 2 3 4 5 6 by blast
qed

theorem snapshot_priority_witness:
  "grid (get_grid_state demo_model) ! nat 0 ! nat 0 = 2 \<and>
   grid (get_grid_state demo_model) ! nat 1 ! nat 0 = 3 \<and>
   grid (get_grid_state demo_model) ! nat 1 ! nat 2 = 7 \<and>
   grid (get_grid_state demo_model) ! nat 0 ! nat 1 = 10 \<and>
   grid (get_grid_state demo_model) ! nat 1 ! nat 1 = 9 \<and>
   grid (get_grid_state demo_model) ! nat 0 ! nat 2 = 0"
proof -
  have a: "list_ex inst_TacticalAgent (get_contents_at demo_model (0, 0))"
    by (simp add: demo_eval)
  have b: "\<not> list_ex inst_TacticalAgent (get_contents_at demo_model (0, 1)) \<and>
           list_ex (inst_Hostage demo_model) (get_contents_at demo_model (0, 1))"
    by (simp add: demo_eval is_Hostage_def)
  have c: "\<not> list_ex inst_TacticalAgent (get_contents_at demo_model (2, 1)) \<and>
           \<not> list_ex (inst_Hostage demo_model) (get_contents_at demo_model (2, 1)) \<and>
           \<not> list_ex (inst_Disturbance demo_model) (get_contents_at demo_model (2, 1)) \<and>
           list_ex (inst_FalseAlarm demo_model) (get_contents_at demo_model (2, 1))"
    by (simp add: demo_eval is_Hostage_def is_Disturbance_def is_FalseAlarm_def)
  have d: "\<not> list_ex inst_TacticalAgent (get_contents_at demo_model (1, 0)) \<and>
           \<not> list_ex (inst_Hostage demo_model) (get_contents_at demo_model (1, 0)) \<and>
           \<not> list_ex (inst_Disturbance demo_model) (get_contents_at demo_model (1, 0)) \<and>
           \<not> list_ex (inst_FalseAlarm demo_model) (get_contents_at demo_model (1, 0)) \<and>
           find (inst_Gate demo_model) (get_contents_at demo_model (1, 0)) = Some (CEntity 3) \<and>
           \<not> gate_is_open demo_model (CEntity 3)"
    by (simp add: demo_eval is_Hostage_def is_Disturbance_def is_FalseAlarm_def)
  have e: "\<not> list_ex inst_TacticalAgent (get_contents_at demo_model (1, 1)) \<and>
           \<not> list_ex (inst_Hostage demo_model) (get_contents_at demo_model (1, 1)) \<and>
           \<not> list_ex (inst_Disturbance demo_model) (get_contents_at demo_model (1, 1)) \<and>
           \<not> list_ex (inst_FalseAlarm demo_model) (get_contents_at demo_model (1, 1)) \<and>
           find (inst_Gate demo_model) (get_contents_at demo_model (1, 1)) = Some (CEntity 5) \<and>
           gate_is_open demo_model (CEntity 5)"
    by (simp add: demo_eval is_Hostage_def is_Disturbance_def is_FalseAlarm_def)
  have f: "\<not> list_ex inst_TacticalAgent (get_contents_at demo_model (2, 0)) \<and>
           \<not> list_ex (inst_Hostage demo_model) (get_contents_at demo_model (2, 0)) \<and>
           \<not> list_ex (inst_Disturbance demo_model) (get_contents_at demo_model (2, 0)) \<and>
           \<not> list_ex (inst_FalseAlarm demo_model) (get_contents_at demo_model (2, 0)) \<and>
           \<not> list_ex (inst_Gate demo_model) (get_contents_at demo_model (2, 0)) \<and>
           (2, 0) \<notin> set (entry_points demo_model)"
    by (simp add: demo_eval)
  have w: "width demo_model = 3" "height demo_model = 2" by (simp_all add: demo_model_def)
  have 1: "grid (get_grid_state demo_model) ! nat 0 ! nat 0 = 2"
    using snapshot_priority[of 0 demo_model 0] a w by (simp add: Let_def)
  have 2: "grid (get_grid_state demo_model) ! nat 1 ! nat 0 = 3"
    using snapshot_priority[of 0 demo_model 1] b w by (simp add: Let_def)
  have 3: "grid (get_grid_state demo_model) ! nat 1 ! nat 2 = 7"
    using snapshot_priority[of 2 demo_model 1] c w by (simp add: Let_def)
  have 4: "grid (get_grid_state demo_model) ! nat 0 ! nat 1 = 10"
    using snapshot_priority[of 1 demo_model 0] d w by (simp add: Let_def)
  have 5: "grid (get_grid_state demo_model) ! nat 1 ! nat 1 = 9"
    using snapshot_priority[of 1 demo_model 1] e w by (simp add: Let_def)
  have 6: "grid (get_grid_state demo_model) ! nat 0 ! nat 2 = 0"
    using snapshot_priority[of 2 demo_model 0] f w by (simp add: Let_def)
  show ?thesis using 1 2 3 4 5 6 by blast
qed



section \<open>The action-point budget of an agent's turn\<close>

text \<open>The states at the head of the loop, from the entry to the exit.\<close>

function agent_trace :: "nat \<Rightarrow> model \<Rightarrow> model list" where
  "agent_trace i s =
    (if i < length (agents s) \<and> action_points (agents s ! i) > 0 then
       (case agent_iter i s of None \<Rightarrow> [s] | Some s1 \<Rightarrow> s # agent_trace i s1)
     else [s])"
  by pat_completeness auto
termination
proof (relation "measure (\<lambda>(i, s). nat (action_points (agents s ! i)))")
  show "wf (measure (\<lambda>(i, s). nat (action_points (agents s ! i))))" by simp
next
  fix i s s1
  assume "i < length (agents s) \<and> 0 < action_points (agents s ! i)" and "agent_iter i s = Some s1"
  then show "((i, s1), (i, s)) \<in> measure (\<lambda>(i, s). nat (action_points (agents s ! i)))"
    using agent_iter_decreases[of i s s1] by simp
qed

text \<open>The number of executions of the loop body, the one that ends in \<open>break\<close> included.\<close>

function agent_iterations :: "nat \<Rightarrow> model \<Rightarrow> nat" where
  "agent_iterations i s =
    (if i < length (agents s) \<and> action_points (agents s ! i) > 0 then
       (case agent_iter i s of None \<Rightarrow> 1 | Some s1 \<Rightarrow> 1 + agent_iterations i s1)
     else 0)"
  by pat_completeness auto
termination
proof (relation "measure (\<lambda>(i, s). nat (action_points (agents s ! i)))")
  show "wf (measure (\<lambda>(i, s). nat (action_points (agents s ! i))))" by simp
next
  fix i s s1
  assume "i < length (agents s) \<and> 0 < action_points (agents s ! i)" and "agent_iter i s = Some s1"
  then show "((i, s1), (i, s)) \<in> measure (\<lambda>(i, s). nat (action_points (agents s ! i)))"
    using agent_iter_decreases[of i s s1] by simp
qed

declare agent_trace.simps [simp del] agent_iterations.simps [simp del]

abbreviation ap_of :: "nat \<Rightarrow> model \<Rightarrow> int" where
  "ap_of i s \<equiv> action_points (agents s ! i)"

lemma agent_trace_last: "last (agent_trace i s) = agent_loop i s"
proof (induction i s rule: agent_loop.induct)
  case (1 i s)
  show ?case
  proof (cases "i < length (agents s) \<and> action_points (agents s ! i) > 0")
    case False
    then show ?thesis by (subst agent_trace.simps, subst agent_loop.simps) auto
  next
    case True
    show ?thesis
    proof (cases "agent_iter i s")
      case None
      with True show ?thesis by (subst agent_trace.simps, subst agent_loop.simps) simp
    next
      case (Some s1)
      have ne: "agent_trace i s1 \<noteq> []" by (subst agent_trace.simps) (simp split: option.split)
      from True Some "1.IH"[of s1] ne show ?thesis
        by (subst agent_trace.simps, subst agent_loop.simps) simp
    qed
  qed
qed

lemma agent_trace_bounds:
  "i < length (agents s) \<Longrightarrow> 0 \<le> ap_of i s \<Longrightarrow>
   list_all (\<lambda>st. 0 \<le> ap_of i st \<and> ap_of i st \<le> ap_of i s) (agent_trace i s) \<and>
   sorted_wrt (\<lambda>a b. a > b) (map (ap_of i) (agent_trace i s)) \<and>
   agent_iterations i s \<le> nat (ap_of i s) \<and>
   length (agent_trace i s) \<le> nat (ap_of i s) + 1"
proof (induction i s rule: agent_loop.induct)
  case (1 i s)
  show ?case
  proof (cases "i < length (agents s) \<and> action_points (agents s ! i) > 0")
    case False
    with 1(2,3) show ?thesis
      by (subst (1 2 3) agent_trace.simps, subst agent_iterations.simps) auto
  next
    case True
    show ?thesis
    proof (cases "agent_iter i s")
      case None
      with True show ?thesis
        by (subst (1 2 3) agent_trace.simps, subst agent_iterations.simps) auto
    next
      case (Some s1)
      from agent_iter_decreases[OF Some] True have d: "length (agents s1) = length (agents s)"
        "ap_of i s1 < ap_of i s" "0 \<le> ap_of i s1" by simp_all
      with True have IH: "list_all (\<lambda>st. 0 \<le> ap_of i st \<and> ap_of i st \<le> ap_of i s1) (agent_trace i s1)"
        "sorted_wrt (\<lambda>a b. a > b) (map (ap_of i) (agent_trace i s1))"
        "agent_iterations i s1 \<le> nat (ap_of i s1)"
        "length (agent_trace i s1) \<le> nat (ap_of i s1) + 1"
        using "1.IH"[OF True Some] by simp_all
      have a: "list_all (\<lambda>st. 0 \<le> ap_of i st \<and> ap_of i st \<le> ap_of i s) (agent_trace i s1)"
        using IH(1) d(2) by (auto simp: list_all_iff)
      have b: "\<forall>st \<in> set (agent_trace i s1). ap_of i s > ap_of i st"
        using IH(1) d(2) by (auto simp: list_all_iff)
      have tr: "agent_trace i s = s # agent_trace i s1"
        using True Some by (subst agent_trace.simps) simp
      have it: "agent_iterations i s = 1 + agent_iterations i s1"
        using True Some by (subst agent_iterations.simps) simp
      show ?thesis unfolding tr it using a b IH d True by auto
    qed
  qed
qed


lemma agent_trace_hd: "hd (agent_trace i s) = s"
  by (subst agent_trace.simps) (simp split: option.split)

lemma agent_trace_steps:
  "Suc k < length (agent_trace i s) \<Longrightarrow>
   agent_iter i (agent_trace i s ! k) = Some (agent_trace i s ! Suc k)"
proof (induction i s arbitrary: k rule: agent_loop.induct)
  case (1 i s)
  show ?case
  proof (cases "i < length (agents s) \<and> action_points (agents s ! i) > 0")
    case False
    then have "agent_trace i s = [s]" by (subst agent_trace.simps) auto
    with 1(2) show ?thesis by simp
  next
    case True
    show ?thesis
    proof (cases "agent_iter i s")
      case None
      with True have "agent_trace i s = [s]" by (subst agent_trace.simps) simp
      with 1(2) show ?thesis by simp
    next
      case (Some s1)
      have tr: "agent_trace i s = s # agent_trace i s1"
        using True Some by (subst agent_trace.simps) simp
      show ?thesis
      proof (cases k)
        case 0
        have "agent_trace i s1 \<noteq> []" by (subst agent_trace.simps) (simp split: option.split)
        then have "agent_trace i s1 ! 0 = s1"
          using agent_trace_hd[of i s1] by (simp add: hd_conv_nth)
        with 0 Some tr show ?thesis by simp
      next
        case (Suc j)
        with 1(2) tr have "Suc j < length (agent_trace i s1)" by simp
        from "1.IH"[OF True Some this] Suc tr show ?thesis by simp
      qed
    qed
  qed
qed

lemma agent_iter_cost:
  assumes "agent_iter i s = Some s'" and "i < length (agents s)"
  shows "\<exists>act c. (act, c) \<in> set (possible_actions s (agents s ! i)) \<and> 1 \<le> c \<and>
           c \<le> action_points (agents s ! i) \<and>
           action_points (agents s' ! i) = action_points (agents s ! i) - c"
proof -
  let ?pa = "possible_actions s (agents s ! i)"
  from assms(1) have ne: "?pa \<noteq> []"
    by (auto simp: agent_iter_def Let_def split: if_splits)
  obtain act c r1 where ch: "choice (random s) ?pa = ((act, c), r1)"
    by (metis prod.exhaust)
  with ne have m: "(act, c) \<in> set ?pa" using choice_mem[OF ne, of "random s"] by simp
  then have c: "1 \<le> c" "c \<le> action_points (agents s ! i)"
    using possible_actions_cost by blast+
  from assms(1) ne ch have s': "s' = set_agent i ((agents (apply_action i act (s\<lparr>random := r1\<rparr>)) ! i)
      \<lparr>action_points := action_points (agents (apply_action i act (s\<lparr>random := r1\<rparr>)) ! i) - c\<rparr>)
      (apply_action i act (s\<lparr>random := r1\<rparr>))"
    by (auto simp: agent_iter_def Let_def)
  have "action_points (agents s' ! i) = action_points (agents s ! i) - c"
    using assms(2) by (simp add: s' set_agent_def)
  with m c show ?thesis by blast
qed

text \<open>
  C6. An activation of an agent starts its loop with \<open>action_points = 4\<close>. Every
  iteration that applies an action selects one of the listed actions, whose cost is at
  least 1 and at most the action points the agent has at that moment, and deducts it.
  Along the states at the head of the loop the action points decrease strictly and stay
  between 0 and 4, the loop body runs at most 4 times, and the activation ends with
  action points between 0 and 4.
\<close>

theorem agent_step_budget:
  assumes "i < length (agents s)"
  shows "(let s0 = set_agent i ((agents s ! i)\<lparr>action_points := 4\<rparr>) s; tr = agent_trace i s0 in
     action_points (agents s0 ! i) = 4 \<and>
     hd tr = s0 \<and> last tr = agent_step i s \<and>
     (\<forall>k. Suc k < length tr \<longrightarrow> agent_iter i (tr ! k) = Some (tr ! Suc k)) \<and>
     list_all (\<lambda>st. 0 \<le> action_points (agents st ! i) \<and> action_points (agents st ! i) \<le> 4) tr \<and>
     sorted_wrt (\<lambda>a b. a > b) (map (\<lambda>st. action_points (agents st ! i)) tr) \<and>
     agent_iterations i s0 \<le> 4 \<and> length tr \<le> 5 \<and>
     0 \<le> action_points (agents (agent_step i s) ! i) \<and>
     action_points (agents (agent_step i s) ! i) \<le> 4) \<and>
   (\<forall>st st'. agent_iter i st = Some st' \<and> i < length (agents st) \<longrightarrow>
      (\<exists>act c. (act, c) \<in> set (possible_actions st (agents st ! i)) \<and> 1 \<le> c \<and>
         c \<le> action_points (agents st ! i) \<and>
         action_points (agents st' ! i) = action_points (agents st ! i) - c))"
proof -
  define s0 where "s0 = set_agent i ((agents s ! i)\<lparr>action_points := 4\<rparr>) s"
  have len: "i < length (agents s0)" using assms by (simp add: s0_def set_agent_def)
  have ap: "action_points (agents s0 ! i) = 4" using assms by (simp add: s0_def set_agent_def)
  have step: "agent_step i s = agent_loop i s0" by (simp add: agent_step_def s0_def)
  have lst: "last (agent_trace i s0) = agent_step i s" by (simp add: step agent_trace_last)
  have b: "list_all (\<lambda>st. 0 \<le> ap_of i st \<and> ap_of i st \<le> 4) (agent_trace i s0)"
    "sorted_wrt (\<lambda>a b. a > b) (map (ap_of i) (agent_trace i s0))"
    "agent_iterations i s0 \<le> 4" "length (agent_trace i s0) \<le> 5"
    using agent_trace_bounds[OF len] ap by simp_all
  have ne: "agent_trace i s0 \<noteq> []" by (subst agent_trace.simps) (simp split: option.split)
  have "last (agent_trace i s0) \<in> set (agent_trace i s0)" using ne by simp
  with b(1) lst have fin: "0 \<le> ap_of i (agent_step i s)" "ap_of i (agent_step i s) \<le> 4"
    by (auto simp: list_all_iff)
  have steps: "\<forall>k. Suc k < length (agent_trace i s0) \<longrightarrow>
      agent_iter i (agent_trace i s0 ! k) = Some (agent_trace i s0 ! Suc k)"
    using agent_trace_steps by blast
  have cost: "\<forall>st st'. agent_iter i st = Some st' \<and> i < length (agents st) \<longrightarrow>
      (\<exists>act c. (act, c) \<in> set (possible_actions st (agents st ! i)) \<and> 1 \<le> c \<and>
         c \<le> action_points (agents st ! i) \<and>
         action_points (agents st' ! i) = action_points (agents st ! i) - c)"
    using agent_iter_cost by blast
  show ?thesis
    unfolding Let_def s0_def[symmetric]
    using ap agent_trace_hd[of i s0] lst steps b fin cost by blast
qed


theorem agent_step_budget_witness:
  "0 < length (agents (rescue_scenario (\<lambda>i. 7))) \<and>
   agent_iterations 0
     (set_agent 0 ((agents (rescue_scenario (\<lambda>i. 7)) ! 0)\<lparr>action_points := 4\<rparr>)
        (rescue_scenario (\<lambda>i. 7))) \<le> 4 \<and>
   0 \<le> action_points (agents (agent_step 0 (rescue_scenario (\<lambda>i. 7))) ! 0) \<and>
   action_points (agents (agent_step 0 (rescue_scenario (\<lambda>i. 7))) ! 0) \<le> 4 \<and>
   (\<exists>st'. agent_iter 0 (rescue_scenario (\<lambda>i. 7)) = Some st' \<and>
      (\<exists>act c. (act, c) \<in> set (possible_actions (rescue_scenario (\<lambda>i. 7))
                                 (agents (rescue_scenario (\<lambda>i. 7)) ! 0)) \<and>
         1 \<le> c \<and> c \<le> action_points (agents (rescue_scenario (\<lambda>i. 7)) ! 0) \<and>
         action_points (agents st' ! 0) =
           action_points (agents (rescue_scenario (\<lambda>i. 7)) ! 0) - c))"
proof -
  have len: "0 < length (agents (rescue_scenario (\<lambda>i. 7)))"
    by (simp add: rescue_scenario_def)
  obtain st' where it: "agent_iter 0 (rescue_scenario (\<lambda>i. 7)) = Some st'"
    by (simp add: rescue_scenario_def eval_defs)
  from agent_step_budget[OF len] it len show ?thesis
    unfolding Let_def by blast
qed


section \<open>The search for an available cell\<close>



text \<open>The cell holds a closed Gate: the test of the loop of \<open>get_available_cell\<close>.\<close>

definition cell_closed :: "model \<Rightarrow> pos \<Rightarrow> bool" where
  "cell_closed s p = list_ex (closed_gate s) (get_contents_at s p)"

text \<open>Every cell of the grid holds a closed Gate.\<close>

definition every_cell_closed :: "model \<Rightarrow> bool" where
  "every_cell_closed s =
    list_all (cell_closed s)
      (concat (map (\<lambda>x. map (\<lambda>y. (x, y)) [0..height s - 1]) [0..width s - 1]))"

text \<open>The cell named by the \<open>k\<close>-th pair of draws of the generator of the model.\<close>

definition draw_cell :: "model \<Rightarrow> nat \<Rightarrow> pos" where
  "draw_cell s k =
    (int (random s (2 * k) mod nat (width s)), int (random s (2 * k + 1) mod nat (height s)))"

lemma cell_closed_random [simp]: "cell_closed (s\<lparr>random := r\<rparr>) = cell_closed s"
proof
  fix p
  have "closed_gate (s\<lparr>random := r\<rparr>) = closed_gate s"
  proof
    fix c show "closed_gate (s\<lparr>random := r\<rparr>) c = closed_gate s c"
      by (cases c) (simp_all add: closed_gate_def is_Gate_def)
  qed
  then show "cell_closed (s\<lparr>random := r\<rparr>) p = cell_closed s p"
    by (simp add: cell_closed_def get_contents_at_def grid_cell_def cell_get_def)
qed


lemma get_available_cell_unfold:
  assumes "0 < width s" "0 < height s"
  shows "get_available_cell s =
    (if \<not> cell_closed s (draw_cell s 0)
     then Some (Inr (draw_cell s 0, s\<lparr>random := rng_tail (rng_tail (random s))\<rparr>))
     else get_available_cell (s\<lparr>random := rng_tail (rng_tail (random s))\<rparr>))"
proof -
  have d: "draw_cell s 0 = (int (random s 0 mod nat (width s)),
                            int (rng_tail (random s) 0 mod nat (height s)))"
    by (simp add: draw_cell_def rng_tail_def)
  show ?thesis
    using assms
    by (subst get_available_cell.simps)
       (simp add: randrange_def Let_def d cell_closed_def[symmetric])
qed


lemma draw_cell_in_grid:
  assumes "0 < width s" "0 < height s"
  shows "0 \<le> fst (draw_cell s k) \<and> fst (draw_cell s k) < width s \<and>
         0 \<le> snd (draw_cell s k) \<and> snd (draw_cell s k) < height s"
proof -
  have "random s (2 * k) mod nat (width s) < nat (width s)" using assms(1) by simp
  then have 1: "int (random s (2 * k) mod nat (width s)) < width s" by linarith
  have "random s (2 * k + 1) mod nat (height s) < nat (height s)" using assms(2) by simp
  then have 2: "int (random s (2 * k + 1) mod nat (height s)) < height s" by linarith
  show ?thesis using 1 2 by (simp add: draw_cell_def)
qed


lemma draw_cell_shift:
  "draw_cell (s\<lparr>random := rng_tail (rng_tail (random s))\<rparr>) k = draw_cell s (Suc k)"
  by (simp add: draw_cell_def rng_tail_def)

lemma get_available_cell_first_free:
  assumes "0 < width s" "0 < height s"
    and "\<forall>j<k. cell_closed s (draw_cell s j)" and "\<not> cell_closed s (draw_cell s k)"
  shows "get_available_cell s =
         Some (Inr (draw_cell s k, s\<lparr>random := (rng_tail ^^ (2 * (k + 1))) (random s)\<rparr>))"
  using assms
proof (induction k arbitrary: s)
  case 0
  then show ?case by (simp add: get_available_cell_unfold numeral_2_eq_2)
next
  case (Suc k)
  let ?s1 = "s\<lparr>random := rng_tail (rng_tail (random s))\<rparr>"
  from Suc.prems(3) have c0: "cell_closed s (draw_cell s 0)" by simp
  have 1: "get_available_cell s = get_available_cell ?s1"
    using c0 Suc.prems(1,2) by (simp add: get_available_cell_unfold)
  have a: "\<forall>j<k. cell_closed ?s1 (draw_cell ?s1 j)"
    using Suc.prems(3) by (simp add: draw_cell_shift)
  have b: "\<not> cell_closed ?s1 (draw_cell ?s1 k)"
    using Suc.prems(4) by (simp add: draw_cell_shift)
  have "get_available_cell ?s1 =
     Some (Inr (draw_cell ?s1 k, ?s1\<lparr>random := (rng_tail ^^ (2 * (k + 1))) (random ?s1)\<rparr>))"
    using Suc.IH[of ?s1] Suc.prems(1,2) a b by simp
  then show ?case unfolding 1 by (simp add: draw_cell_shift funpow_swap1)
qed


lemma spawn_disturbance_no_draw:
  "\<not> fst (random_less_005 (random s)) \<Longrightarrow>
   spawn_disturbance s = Some (Inr (s\<lparr>random := rng_tail (random s)\<rparr>))"
  by (simp add: spawn_disturbance_def random_less_005_def)


lemmas world_eval = get_contents_at_def grid_cell_def cell_get_def closed_gate_def is_Gate_def
  cell_closed_def every_cell_closed_def draw_cell_def


section \<open>The random sources of a run\<close>

subsection \<open>The placement of the agents follows the generator of the module\<close>

lemma place_agents_Suc:
  "place_agents (Suc n) g s =
   place_agents n (rng_tail g)
     (s\<lparr>next_entity_id := next_entity_id s + 1,
        agents := agents s @
          [\<lparr>unique_id = next_entity_id s + 1,
            pos = entry_points s ! (g 0 mod length (entry_points s)),
            action_points = 4, carrying_hostage = False\<rparr>]\<rparr>)"
  by (simp add: get_next_id_def choice_def)

lemma new_entity_agents [simp]: "agents (new_entity e p s) = agents s"
  by (simp add: new_entity_def get_next_id_def append_entity_def)

lemma place_doors_agents [simp]: "agents (fst (place_doors ds g s)) = agents s"
proof (induction ds arbitrary: g s)
  case Nil
  show ?case by simp
next
  case (Cons d ds)
  obtain r1 c1 r2 c2 where d: "d = (r1, c1, r2, c2)" by (cases d) auto
  show ?case unfolding d by (simp add: Cons.IH case_prod_beta)
qed

lemma fold_agents:
  assumes "\<And>x s. agents (f x s) = agents s"
  shows "agents (fold f xs s) = agents s"
  by (induction xs arbitrary: s) (simp_all add: assms)

lemma place_agents_pos:
  "map pos (agents (fst (place_agents n g s))) =
   map pos (agents s) @
   map (\<lambda>k. entry_points s ! (g k mod length (entry_points s))) [0..<n]"
proof (induction n arbitrary: g s)
  case 0
  show ?case by simp
next
  case (Suc n)
  show ?case
    unfolding place_agents_Suc
    by (subst Suc.IH) (simp add: rng_tail_def map_upt_Suc del: upt_Suc)
qed

text \<open>
  Two parts of \<open>setup_fixed_grid\<close>, named for the proofs: the model after the walls and
  the entry points have been set, and the placement of the points of interest and of
  the fire markers.
\<close>

definition setup_walls :: "model \<Rightarrow> model" where
  "setup_walls s =
    s\<lparr>walls :=
        fold (\<lambda>(col, row) w. w((col, row) \<mapsto> walls_of_str (grid_walls ! nat row ! nat col)))
          (concat (map (\<lambda>row. map (\<lambda>col. (col, row)) [0..width s - 1]) [0..height s - 1]))
          Map.empty,
      entry_points := map (\<lambda>(r, c). (c - 1, r - 1)) entry_points_data\<rparr>"

definition setup_items :: "model \<Rightarrow> model" where
  "setup_items s =
    fold (\<lambda>(r, c) st. new_entity (Disturbance Mild 0) (c - 1, r - 1) st) fire_markers
      (fold (\<lambda>(r, c, poi_type) st.
                 if poi_type = CHR ''v'' then new_entity Hostage (c - 1, r - 1) st
                 else if poi_type = CHR ''f'' then new_entity FalseAlarm (c - 1, r - 1) st
                 else st) points_of_interest s)"

lemma setup_fixed_grid_parts:
  "setup_fixed_grid g s =
   place_doors doors (snd (place_agents num_agents g (setup_walls s)))
     (setup_items (fst (place_agents num_agents g (setup_walls s))))"
  by (simp add: setup_fixed_grid_def setup_walls_def setup_items_def Let_def case_prod_beta)

lemma setup_items_agents [simp]: "agents (setup_items s) = agents s"
proof -
  have "agents (fold (\<lambda>(r, c, poi_type) st.
                 if poi_type = CHR ''v'' then new_entity Hostage (c - 1, r - 1) st
                 else if poi_type = CHR ''f'' then new_entity FalseAlarm (c - 1, r - 1) st
                 else st) xs s) = agents s" for xs s
    by (rule fold_agents) auto
  moreover have "agents (fold (\<lambda>(r, c) st. new_entity (Disturbance Mild 0) (c - 1, r - 1) st) xs s) = agents s"
    for xs s
    by (rule fold_agents) auto
  ultimately show ?thesis by (simp add: setup_items_def)
qed

lemma RescueModel_agents_pos:
  "map pos (agents (fst (RescueModel r g))) =
   map (\<lambda>k. map (\<lambda>(r, c). (c - 1, r - 1)) entry_points_data !
             (g k mod length entry_points_data)) [0..<num_agents]"
  by (simp add: RescueModel_def setup_fixed_grid_parts place_agents_pos setup_walls_def)

subsection \<open>The setup never draws from the generator of the model\<close>

lemma new_entity_random:
  "new_entity e p (s\<lparr>random := r\<rparr>) = (new_entity e p s)\<lparr>random := r\<rparr>"
  by (simp add: new_entity_def get_next_id_def append_entity_def cell_get_def)

lemma place_agents_random:
  "place_agents n g (s\<lparr>random := r\<rparr>) =
   ((fst (place_agents n g s))\<lparr>random := r\<rparr>, snd (place_agents n g s))"
proof (induction n arbitrary: g s)
  case 0
  show ?case by simp
next
  case (Suc n)
  let ?s1 = "s\<lparr>next_entity_id := next_entity_id s + 1,
        agents := agents s @
          [\<lparr>unique_id = next_entity_id s + 1,
            pos = entry_points s ! (g 0 mod length (entry_points s)),
            action_points = 4, carrying_hostage = False\<rparr>]\<rparr>"
  have e: "(s\<lparr>random := r\<rparr>)\<lparr>next_entity_id := next_entity_id (s\<lparr>random := r\<rparr>) + 1,
        agents := agents (s\<lparr>random := r\<rparr>) @
          [\<lparr>unique_id = next_entity_id (s\<lparr>random := r\<rparr>) + 1,
            pos = entry_points (s\<lparr>random := r\<rparr>) ! (g 0 mod length (entry_points (s\<lparr>random := r\<rparr>))),
            action_points = 4, carrying_hostage = False\<rparr>]\<rparr> = ?s1\<lparr>random := r\<rparr>"
    by (cases s) simp
  have "place_agents (Suc n) g (s\<lparr>random := r\<rparr>) = place_agents n (rng_tail g) (?s1\<lparr>random := r\<rparr>)"
    unfolding place_agents_Suc e ..
  also have "\<dots> = ((fst (place_agents n (rng_tail g) ?s1))\<lparr>random := r\<rparr>,
                    snd (place_agents n (rng_tail g) ?s1))"
    by (rule Suc.IH)
  finally show ?case unfolding place_agents_Suc[of n g s] .
qed

lemma place_doors_random:
  "place_doors ds g (s\<lparr>random := r\<rparr>) =
   ((fst (place_doors ds g s))\<lparr>random := r\<rparr>, snd (place_doors ds g s))"
proof (induction ds arbitrary: g s)
  case Nil
  show ?case by simp
next
  case (Cons d ds)
  obtain r1 c1 r2 c2 where d: "d = (r1, c1, r2, c2)" by (cases d) auto
  show ?case
    unfolding d by (simp add: new_entity_random Cons.IH case_prod_beta)
qed

lemma fold_random:
  assumes "\<And>x s. f x (s\<lparr>random := r\<rparr>) = (f x s)\<lparr>random := r\<rparr>"
  shows "fold f xs (s\<lparr>random := r\<rparr>) = (fold f xs s)\<lparr>random := r\<rparr>"
  by (induction xs arbitrary: s) (simp_all add: assms)

lemma setup_items_random: "setup_items (s\<lparr>random := r\<rparr>) = (setup_items s)\<lparr>random := r\<rparr>"
proof -
  have poi: "fold (\<lambda>(r, c, poi_type) st.
                 if poi_type = CHR ''v'' then new_entity Hostage (c - 1, r - 1) st
                 else if poi_type = CHR ''f'' then new_entity FalseAlarm (c - 1, r - 1) st
                 else st) xs (s\<lparr>random := r\<rparr>) =
             (fold (\<lambda>(r, c, poi_type) st.
                 if poi_type = CHR ''v'' then new_entity Hostage (c - 1, r - 1) st
                 else if poi_type = CHR ''f'' then new_entity FalseAlarm (c - 1, r - 1) st
                 else st) xs s)\<lparr>random := r\<rparr>" for xs s
    by (rule fold_random) (auto simp: new_entity_random)
  have fire: "fold (\<lambda>(r, c) st. new_entity (Disturbance Mild 0) (c - 1, r - 1) st) xs (s\<lparr>random := r\<rparr>) =
              (fold (\<lambda>(r, c) st. new_entity (Disturbance Mild 0) (c - 1, r - 1) st) xs s)\<lparr>random := r\<rparr>"
    for xs s
    by (rule fold_random) (auto simp: new_entity_random)
  show ?thesis by (simp add: setup_items_def poi fire)
qed

lemma setup_walls_random: "setup_walls (s\<lparr>random := r\<rparr>) = (setup_walls s)\<lparr>random := r\<rparr>"
  by (simp add: setup_walls_def)

lemma setup_fixed_grid_random:
  "fst (setup_fixed_grid g (s\<lparr>random := r\<rparr>)) = (fst (setup_fixed_grid g s))\<lparr>random := r\<rparr>"
  by (simp add: setup_fixed_grid_parts setup_walls_random place_agents_random setup_items_random
      place_doors_random)

text \<open>
  C3. The claim asks that the setup-time choices come from the run-scoped generator
  as the choices of a turn do. In the code they do not: \<open>setup_fixed_grid\<close> calls
  \<open>random.choice\<close> of the module, while \<open>step\<close>, \<open>advance_disturbances\<close> and
  \<open>get_available_cell\<close> call \<open>self.random\<close>. The constructed model is the same for
  every generator \<open>r\<close> of the model, and the placement of the six agents is read off
  the draws of the module generator \<open>g\<close>: with the same \<open>r\<close>, the module
  generators that always draw 0 and always draw 1 put all agents on \<open>(5, 0)\<close> and on
  \<open>(0, 2)\<close>, so two runs with the same seed of the model start in different states.
\<close>

theorem setup_uses_module_generator:
  "fst (RescueModel r g) = (fst (RescueModel r' g))\<lparr>random := r\<rparr> \<and>
   map pos (agents (fst (RescueModel r g))) =
     map (\<lambda>k. map (\<lambda>(r, c). (c - 1, r - 1)) entry_points_data !
               (g k mod length entry_points_data)) [0..<num_agents] \<and>
   map pos (agents (fst (RescueModel r (\<lambda>i. 0)))) = replicate 6 (5, 0) \<and>
   map pos (agents (fst (RescueModel r (\<lambda>i. 1)))) = replicate 6 (0, 2) \<and>
   fst (RescueModel r (\<lambda>i. 0)) \<noteq> fst (RescueModel r (\<lambda>i. 1))"
proof -
  let ?init = "\<lambda>r. \<lparr>width = 8, height = 6, agents = [], objs = Map.empty, cell_contents = [],
       walls = Map.empty, entry_points = [], running = True, hostages_rescued = 0,
       hostages_lost = 0, structural_damage = 0, false_alarms_investigated = 0,
       next_entity_id = 0, turn_counter = 0, min_hidden_markers = 3, random = r,
       datacollector = []\<rparr>"
  have i: "?init r = (?init r')\<lparr>random := r\<rparr>" by simp
  have 1: "fst (RescueModel r g) = (fst (RescueModel r' g))\<lparr>random := r\<rparr>"
    unfolding RescueModel_def by (subst i) (rule setup_fixed_grid_random)
  have 3: "map pos (agents (fst (RescueModel r (\<lambda>i. 0)))) = replicate 6 (5, 0)"
    by (simp add: RescueModel_agents_pos entry_points_data_def num_agents_def map_replicate_const)
  have 4: "map pos (agents (fst (RescueModel r (\<lambda>i. 1)))) = replicate 6 (0, 2)"
    by (simp add: RescueModel_agents_pos entry_points_data_def num_agents_def map_replicate_const)
  have 5: "fst (RescueModel r (\<lambda>i. 0)) \<noteq> fst (RescueModel r (\<lambda>i. 1))"
  proof
    assume "fst (RescueModel r (\<lambda>i. 0)) = fst (RescueModel r (\<lambda>i. 1))"
    then have "map pos (agents (fst (RescueModel r (\<lambda>i. 0)))) =
               map pos (agents (fst (RescueModel r (\<lambda>i. 1))))" by simp
    then have "replicate 6 (5 :: int, 0 :: int) = replicate 6 (0, 2)" unfolding 3 4 .
    then have "hd (replicate 6 (5 :: int, 0 :: int)) = hd (replicate 6 (0 :: int, 2 :: int))" by simp
    then show False by (simp add: hd_replicate)
  qed
  show ?thesis using 1 RescueModel_agents_pos 3 4 5 by blast
qed


section \<open>Escalation and explosion\<close>

subsection \<open>Removing items from a cell\<close>

lemma cell_get_update:
  "cell_get (s\<lparr>cell_contents := AList.update p l (cell_contents s)\<rparr>) q =
   (if q = p then l else cell_get s q)"
  by (simp add: cell_get_def update_conv')

lemma remove_entity_cell_get:
  "cell_get (remove_entity e p s) q = (if q = p then remove1 e (cell_get s p) else cell_get s q)"
proof (cases "map_of (cell_contents s) p \<noteq> None \<and> e \<in> set (cell_get s p)")
  case True
  then show ?thesis by (simp add: remove_entity_def cell_get_update)
next
  case False
  then have "e \<notin> set (cell_get s p)" by (auto simp: cell_get_def)
  then have r: "remove1 e (cell_get s p) = cell_get s p" by (simp add: remove1_idem)
  from False have "remove_entity e p s = s" by (auto simp: remove_entity_def)
  then show ?thesis by (simp add: r)
qed

lemma remove_entity_fields [simp]:
  "objs (remove_entity e p s) = objs s"
  "structural_damage (remove_entity e p s) = structural_damage s"
  "hostages_lost (remove_entity e p s) = hostages_lost s"
  by (simp_all add: remove_entity_def)

lemma fold_remove_entity:
  "cell_get (fold (\<lambda>d st. remove_entity d p st) ds s) q =
     (if q = p then fold remove1 ds (cell_get s p) else cell_get s q) \<and>
   objs (fold (\<lambda>d st. remove_entity d p st) ds s) = objs s \<and>
   structural_damage (fold (\<lambda>d st. remove_entity d p st) ds s) = structural_damage s \<and>
   hostages_lost (fold (\<lambda>d st. remove_entity d p st) ds s) = hostages_lost s"
  by (induction ds arbitrary: s) (simp_all add: remove_entity_cell_get)

lemma fold_lose_hostage:
  "cell_get (fold (\<lambda>h st. remove_entity h p (st\<lparr>hostages_lost := hostages_lost st + 1\<rparr>)) hs s) q =
     (if q = p then fold remove1 hs (cell_get s p) else cell_get s q) \<and>
   objs (fold (\<lambda>h st. remove_entity h p (st\<lparr>hostages_lost := hostages_lost st + 1\<rparr>)) hs s) = objs s \<and>
   structural_damage (fold (\<lambda>h st. remove_entity h p (st\<lparr>hostages_lost := hostages_lost st + 1\<rparr>)) hs s)
     = structural_damage s \<and>
   hostages_lost (fold (\<lambda>h st. remove_entity h p (st\<lparr>hostages_lost := hostages_lost st + 1\<rparr>)) hs s)
     = hostages_lost s + int (length hs)"
proof (induction hs arbitrary: s)
  case Nil
  show ?case by simp
next
  case (Cons h hs)
  have c: "cell_get (s\<lparr>hostages_lost := hostages_lost s + 1\<rparr>) = cell_get s"
    by (rule ext) (simp add: cell_get_def)
  show ?case
    using Cons.IH[of "remove_entity h p (s\<lparr>hostages_lost := hostages_lost s + 1\<rparr>)"]
    by (simp add: remove_entity_cell_get c)
qed

text \<open>Removing, one by one, the first occurrence of every element that satisfies \<open>P\<close>.\<close>

lemma fold_remove1_filter:
  assumes "\<forall>y \<in> set ys. \<not> P y" and "\<forall>x. P x \<longrightarrow> Q x"
  shows "fold remove1 (filter P xs) (ys @ filter Q xs) = ys @ filter (\<lambda>x. Q x \<and> \<not> P x) xs"
  using assms(1)
proof (induction xs arbitrary: ys)
  case Nil
  show ?case by simp
next
  case (Cons x xs)
  show ?case
  proof (cases "P x")
    case True
    then have q: "Q x" using assms(2) by blast
    have "x \<notin> set ys" using True Cons.prems by blast
    then have "remove1 x (ys @ x # filter Q xs) = ys @ filter Q xs"
      by (simp add: remove1_append)
    with True q Cons.IH[OF Cons.prems] show ?thesis by simp
  next
    case False
    show ?thesis
    proof (cases "Q x")
      case True
      have "\<forall>y \<in> set (ys @ [x]). \<not> P y" using False Cons.prems by simp
      from Cons.IH[OF this] False True show ?thesis by simp
    next
      case F: False
      with False Cons.IH[OF Cons.prems] show ?thesis by simp
    qed
  qed
qed

lemma is_class_objs:
  "objs s' = objs s \<Longrightarrow> is_Hostage s' = is_Hostage s \<and> is_Disturbance s' = is_Disturbance s"
  by (auto simp: is_Hostage_def is_Disturbance_def fun_eq_iff)

lemma handle_explosion_effect:
  "structural_damage (handle_explosion p (cell_get s p) s) = structural_damage s + 1 \<and>
   hostages_lost (handle_explosion p (cell_get s p) s) =
     hostages_lost s + int (length (filter (is_Hostage s) (cell_get s p))) \<and>
   cell_get (handle_explosion p (cell_get s p) s) p =
     filter (\<lambda>r. \<not> is_Hostage s r \<and> \<not> is_Disturbance s r) (cell_get s p) \<and>
   (\<forall>q. q \<noteq> p \<longrightarrow> cell_get (handle_explosion p (cell_get s p) s) q = cell_get s q) \<and>
   objs (handle_explosion p (cell_get s p) s) = objs s"
proof -
  let ?cs = "cell_get s p"
  let ?s1 = "s\<lparr>structural_damage := structural_damage s + 1\<rparr>"
  let ?s2 = "fold (\<lambda>hostage st. remove_entity hostage p (st\<lparr>hostages_lost := hostages_lost st + 1\<rparr>))
                (filter (is_Hostage ?s1) ?cs) ?s1"
  let ?s3 = "fold (\<lambda>disturbance st. remove_entity disturbance p st)
          (filter (is_Disturbance ?s2) ?cs) ?s2"
  have he: "handle_explosion p ?cs s = ?s3" by (simp add: handle_explosion_def Let_def)
  have c1: "cell_get ?s1 = cell_get s" by (rule ext) (simp add: cell_get_def)
  have h1: "is_Hostage ?s1 = is_Hostage s" using is_class_objs[of ?s1 s] by simp
  note f2 = fold_lose_hostage[of p "filter (is_Hostage s) ?cs" ?s1]
  have o2: "objs ?s2 = objs s" using f2[of p] by (simp add: h1)
  have d2: "is_Disturbance ?s2 = is_Disturbance s" using is_class_objs[OF o2] by simp
  have l2: "cell_get ?s2 p = filter (\<lambda>r. \<not> is_Hostage s r) ?cs"
    using f2[of p] fold_remove1_filter[of "[]" "is_Hostage s" "\<lambda>x. True" ?cs]
    by (simp add: h1 c1)
  have q2: "q \<noteq> p \<Longrightarrow> cell_get ?s2 q = cell_get s q" for q
    using f2[of q] by (simp add: h1 c1)
  have sd2: "structural_damage ?s2 = structural_damage s + 1"
    and hl2: "hostages_lost ?s2 = hostages_lost s + int (length (filter (is_Hostage s) ?cs))"
    using f2[of p] by (simp_all add: h1)
  note f3 = fold_remove_entity[of p "filter (is_Disturbance s) ?cs" ?s2]
  have excl: "\<forall>x. is_Disturbance s x \<longrightarrow> \<not> is_Hostage s x"
    by (auto simp: is_Disturbance_def is_Hostage_def split: option.splits entity.splits)
  have l3: "cell_get ?s3 p = filter (\<lambda>r. \<not> is_Hostage s r \<and> \<not> is_Disturbance s r) ?cs"
    using f3[of p] fold_remove1_filter[of "[]" "is_Disturbance s" "\<lambda>r. \<not> is_Hostage s r" ?cs] excl
    by (simp add: d2 l2)
  have q3: "q \<noteq> p \<Longrightarrow> cell_get ?s3 q = cell_get s q" for q
    using f3[of q] q2[of q] by (simp add: d2)
  have r3: "structural_damage ?s3 = structural_damage s + 1"
    "hostages_lost ?s3 = hostages_lost s + int (length (filter (is_Hostage s) ?cs))"
    "objs ?s3 = objs s"
    using f3[of p] sd2 hl2 o2 by (simp_all add: d2)
  show ?thesis unfolding he using l3 q3 r3 by blast
qed


lemma advance_one_explodes:
  assumes "objs s d = Some (Disturbance Active t)" and "t + 1 \<ge> 6"
  shows "advance_one p d s =
         handle_explosion p (cell_get (s\<lparr>objs := (objs s)(d \<mapsto> Disturbance Grave (t + 1))\<rparr>) p)
           (s\<lparr>objs := (objs s)(d \<mapsto> Disturbance Grave (t + 1))\<rparr>)"
  using assms by (simp add: advance_one_def Let_def)

lemma explosion_step:
  assumes "objs s d = Some (Disturbance Active t)" and "t + 1 \<ge> 6"
  shows "objs (advance_one p d s) = (objs s)(d \<mapsto> Disturbance Grave (t + 1)) \<and>
         structural_damage (advance_one p d s) = structural_damage s + 1 \<and>
         hostages_lost (advance_one p d s) =
           hostages_lost s + int (length (filter (is_Hostage s) (cell_get s p))) \<and>
         cell_get (advance_one p d s) p =
           filter (\<lambda>r. \<not> is_Hostage s r \<and> \<not> is_Disturbance s r) (cell_get s p) \<and>
         (\<forall>q. q \<noteq> p \<longrightarrow> cell_get (advance_one p d s) q = cell_get s q) \<and>
         is_Hostage (advance_one p d s) = is_Hostage s \<and>
         is_Disturbance (advance_one p d s) = is_Disturbance s"
proof -
  let ?s1 = "s\<lparr>objs := (objs s)(d \<mapsto> Disturbance Grave (t + 1))\<rparr>"
  have c1: "cell_get ?s1 = cell_get s" by (rule ext) (simp add: cell_get_def)
  have h1: "is_Hostage ?s1 = is_Hostage s"
    using assms(1) by (auto simp: is_Hostage_def fun_eq_iff)
  have d1: "is_Disturbance ?s1 = is_Disturbance s"
    using assms(1) by (auto simp: is_Disturbance_def fun_eq_iff)
  have e: "advance_one p d s = handle_explosion p (cell_get ?s1 p) ?s1"
    by (rule advance_one_explodes[OF assms])
  note he = handle_explosion_effect[of p ?s1]
  have o: "objs (advance_one p d s) = (objs s)(d \<mapsto> Disturbance Grave (t + 1))"
    unfolding e using he by simp
  have cls: "is_Hostage (advance_one p d s) = is_Hostage s"
    "is_Disturbance (advance_one p d s) = is_Disturbance s"
    using is_class_objs[of "advance_one p d s" ?s1] o h1 d1 by simp_all
  show ?thesis unfolding e using he o cls unfolding e by (simp add: h1 d1 c1)
qed

subsection \<open>What the hazard pass leaves alone\<close>

text \<open>The cell holds neither a Hostage nor a Disturbance.\<close>

definition cleared :: "model \<Rightarrow> pos \<Rightarrow> bool" where
  "cleared s p = list_all (\<lambda>r. \<not> is_Hostage s r \<and> \<not> is_Disturbance s r) (cell_get s p)"

text \<open>
  The frame of a part of the pass that advances the Disturbances \<open>ds\<close> of the cell
  \<open>p\<close>: other objects keep their fields, no object changes its class, other cells keep
  their lists, the list of \<open>p\<close> can only lose items, and the counters do not decrease.
\<close>

definition pass_frame :: "pos \<Rightarrow> nat list \<Rightarrow> model \<Rightarrow> model \<Rightarrow> bool" where
  "pass_frame p ds s s' =
    ((\<forall>x. x \<notin> set ds \<longrightarrow> objs s' x = objs s x) \<and>
     is_Hostage s' = is_Hostage s \<and> is_Disturbance s' = is_Disturbance s \<and>
     (\<forall>q. q \<noteq> p \<longrightarrow> cell_get s' q = cell_get s q) \<and>
     set (cell_get s' p) \<subseteq> set (cell_get s p) \<and>
     map fst (cell_contents s') = map fst (cell_contents s) \<and>
     structural_damage s \<le> structural_damage s' \<and> hostages_lost s \<le> hostages_lost s')"

lemma pass_frame_refl: "pass_frame p ds s s"
  by (simp add: pass_frame_def)

lemma pass_frame_trans:
  "pass_frame p ds1 s s1 \<Longrightarrow> pass_frame p ds2 s1 s2 \<Longrightarrow> pass_frame p (ds1 @ ds2) s s2"
  unfolding pass_frame_def by (auto; metis)

lemma remove_entity_keys [simp]:
  "map fst (cell_contents (remove_entity e p s)) = map fst (cell_contents s)"
proof (cases "map_of (cell_contents s) p \<noteq> None \<and> e \<in> set (cell_get s p)")
  case True
  then have "p \<in> fst ` set (cell_contents s)" by (auto simp: map_of_eq_None_iff)
  then show ?thesis using True by (simp add: remove_entity_def update_keys)
next
  case False
  then show ?thesis by (auto simp: remove_entity_def)
qed

lemma handle_explosion_keys [simp]:
  "map fst (cell_contents (handle_explosion p cs s)) = map fst (cell_contents s)"
proof -
  have a: "map fst (cell_contents (fold (\<lambda>d st. remove_entity d p st) ds s)) = map fst (cell_contents s)"
    for ds s by (induction ds arbitrary: s) simp_all
  have b: "map fst (cell_contents
      (fold (\<lambda>h st. remove_entity h p (st\<lparr>hostages_lost := hostages_lost st + 1\<rparr>)) hs s))
      = map fst (cell_contents s)" for hs s
    by (induction hs arbitrary: s) simp_all
  show ?thesis by (simp add: handle_explosion_def Let_def a b)
qed

lemma advance_one_frame: "pass_frame p [d] s (advance_one p d s)"
proof (cases "objs s d")
  case None
  then show ?thesis by (simp add: advance_one_def pass_frame_def)
next
  case (Some e)
  show ?thesis
  proof (cases e)
    case (Disturbance sev t)
    have upd: "pass_frame p [d] s (s\<lparr>objs := (objs s)(d \<mapsto> Disturbance sev' t')\<rparr>)" for sev' t'
      using Some Disturbance
      by (auto simp: pass_frame_def is_Hostage_def is_Disturbance_def cell_get_def fun_eq_iff)
    show ?thesis
    proof (cases "sev = Active \<and> t + 1 \<ge> 6")
      case True
      then have o: "objs s d = Some (Disturbance Active t)" and g: "t + 1 \<ge> 6"
        using Some Disturbance by simp_all
      note st = explosion_step[OF o g, of p]
      have k: "map fst (cell_contents (advance_one p d s)) = map fst (cell_contents s)"
        unfolding advance_one_explodes[OF o g] by simp
      show ?thesis
        unfolding pass_frame_def using st k by auto
    next
      case False
      then have "advance_one p d s = s\<lparr>objs := (objs s)(d \<mapsto> Disturbance Active 0)\<rparr> \<or>
                 advance_one p d s = s\<lparr>objs := (objs s)(d \<mapsto> Disturbance sev (t + 1))\<rparr>"
        using Some Disturbance by (auto simp: advance_one_def Let_def)
      then show ?thesis using upd by auto
    qed
  qed (use Some in \<open>simp_all add: advance_one_def pass_frame_def\<close>)
qed

lemma fold_advance_one_frame: "pass_frame p ds s (fold (advance_one p) ds s)"
proof (induction ds arbitrary: s)
  case Nil
  show ?case by (simp add: pass_frame_refl)
next
  case (Cons d ds)
  from pass_frame_trans[OF advance_one_frame[of p d s] Cons.IH[of "advance_one p d s"]]
  show ?case by simp
qed

lemma pass_frame_cleared:
  "pass_frame p ds s s' \<Longrightarrow> cleared s p \<Longrightarrow> cleared s' p"
  unfolding pass_frame_def cleared_def list_all_iff by auto


lemma advance_cell_explodes:
  assumes "d \<in> set (cell_get s p)" and "distinct (cell_get s p)"
    and "objs s d = Some (Disturbance Active t)" and "t + 1 \<ge> 6"
  shows "objs (advance_cell p s) d = Some (Disturbance Grave (t + 1)) \<and>
         cleared (advance_cell p s) p \<and>
         structural_damage s + 1 \<le> structural_damage (advance_cell p s) \<and>
         pass_frame p (filter (is_Disturbance s) (cell_get s p)) s (advance_cell p s)"
proof -
  let ?ds = "filter (is_Disturbance s) (cell_get s p)"
  have dd: "is_Disturbance s d" using assms(3) by (simp add: is_Disturbance_def)
  then have "d \<in> set ?ds" using assms(1) by simp
  then obtain ds1 ds2 where sp: "?ds = ds1 @ d # ds2" by (meson split_list)
  have "distinct ?ds" using assms(2) by simp
  then have n1: "d \<notin> set ds1" and n2: "d \<notin> set ds2" unfolding sp by simp_all
  let ?s1 = "fold (advance_one p) ds1 s"
  let ?s2 = "advance_one p d ?s1"
  let ?s3 = "fold (advance_one p) ds2 ?s2"
  have ac: "advance_cell p s = ?s3" by (simp add: advance_cell_def sp)
  have f1: "pass_frame p ds1 s ?s1" by (rule fold_advance_one_frame)
  have f3: "pass_frame p ds2 ?s2 ?s3" by (rule fold_advance_one_frame)
  have o1: "objs ?s1 d = Some (Disturbance Active t)"
    using f1 n1 assms(3) by (simp add: pass_frame_def)
  note st = explosion_step[OF o1 assms(4), of p]
  have c2: "cleared ?s2 p"
    unfolding cleared_def list_all_iff using st by auto
  have c3: "cleared ?s3 p" by (rule pass_frame_cleared[OF f3 c2])
  have o3: "objs ?s3 d = Some (Disturbance Grave (t + 1))"
    using f3 n2 st by (simp add: pass_frame_def)
  have sd: "structural_damage s + 1 \<le> structural_damage ?s3"
    using f1 f3 st by (simp add: pass_frame_def)
  have "pass_frame p (ds1 @ [d] @ ds2) s ?s3"
    by (rule pass_frame_trans[OF f1 pass_frame_trans[OF advance_one_frame f3]])
  then have fr: "pass_frame p ?ds s ?s3" by (simp add: sp)
  show ?thesis unfolding ac using o3 c3 sd fr by blast
qed

lemma advance_cell_frame:
  "pass_frame q (filter (is_Disturbance s) (cell_get s q)) s (advance_cell q s)"
  unfolding advance_cell_def by (rule fold_advance_one_frame)

text \<open>
  The cells \<open>ks\<close> are advanced, \<open>p\<close> is not among them and none of them holds \<open>d\<close>:
  the cell \<open>p\<close> and the object \<open>d\<close> are as before.
\<close>

definition quiet :: "pos \<Rightarrow> nat \<Rightarrow> model \<Rightarrow> model \<Rightarrow> bool" where
  "quiet p d s s' =
    (cell_get s' p = cell_get s p \<and> objs s' d = objs s d \<and>
     is_Hostage s' = is_Hostage s \<and> is_Disturbance s' = is_Disturbance s \<and>
     (\<forall>q. set (cell_get s' q) \<subseteq> set (cell_get s q)) \<and>
     structural_damage s \<le> structural_damage s')"

lemma advance_cell_quiet:
  assumes "q \<noteq> p" and "d \<notin> set (cell_get s q)"
  shows "quiet p d s (advance_cell q s)"
proof -
  have "d \<notin> set (filter (is_Disturbance s) (cell_get s q))" using assms(2) by simp
  with advance_cell_frame[of q s] assms(1) show ?thesis
    unfolding pass_frame_def quiet_def by (auto; metis subsetD)
qed

lemma quiet_trans: "quiet p d s s1 \<Longrightarrow> quiet p d s1 s2 \<Longrightarrow> quiet p d s s2"
  unfolding quiet_def by (auto; blast)

lemma fold_advance_cell_quiet:
  assumes "p \<notin> set ks" and "\<forall>q \<in> set ks. d \<notin> set (cell_get s q)"
  shows "quiet p d s (fold advance_cell ks s)"
  using assms
proof (induction ks arbitrary: s)
  case Nil
  show ?case by (simp add: quiet_def)
next
  case (Cons k ks)
  have qk: "quiet p d s (advance_cell k s)"
    using Cons.prems by (intro advance_cell_quiet) auto
  have "\<forall>q \<in> set ks. d \<notin> set (cell_get (advance_cell k s) q)"
    using Cons.prems(2) qk unfolding quiet_def by auto
  with Cons.IH[of "advance_cell k s"] Cons.prems(1)
  have "quiet p d (advance_cell k s) (fold advance_cell ks (advance_cell k s))" by simp
  then show ?case using qk by (simp add: quiet_trans)
qed

lemma advance_all_explodes:
  assumes "distinct (map fst (cell_contents s))"
    and "d \<in> set (cell_get s p)" and "distinct (cell_get s p)"
    and "\<forall>q. q \<noteq> p \<longrightarrow> d \<notin> set (cell_get s q)"
    and "objs s d = Some (Disturbance Active t)" and "t + 1 \<ge> 6"
  shows "objs (advance_all s) d = Some (Disturbance Grave (t + 1)) \<and>
         cleared (advance_all s) p \<and>
         structural_damage s + 1 \<le> structural_damage (advance_all s)"
proof -
  let ?ks = "map fst (cell_contents s)"
  have "map_of (cell_contents s) p \<noteq> None"
  proof
    assume "map_of (cell_contents s) p = None"
    then have "cell_get s p = []" by (simp add: cell_get_def)
    with assms(2) show False by simp
  qed
  then have "p \<in> set ?ks" by (auto simp: map_of_eq_None_iff)
  then obtain k1 k2 where sp: "?ks = k1 @ p # k2" by (meson split_list)
  have n1: "p \<notin> set k1" and n2: "p \<notin> set k2" using assms(1) unfolding sp by simp_all
  let ?s1 = "fold advance_cell k1 s"
  let ?s2 = "advance_cell p ?s1"
  let ?s3 = "fold advance_cell k2 ?s2"
  have aa: "advance_all s = ?s3" by (simp add: advance_all_def sp)
  have q1: "quiet p d s ?s1"
    using n1 assms(4) by (intro fold_advance_cell_quiet) auto
  then have a1: "d \<in> set (cell_get ?s1 p)" "distinct (cell_get ?s1 p)"
    "objs ?s1 d = Some (Disturbance Active t)"
    using assms(2,3,5) by (simp_all add: quiet_def)
  note ex = advance_cell_explodes[OF a1 assms(6)]
  have d2: "\<forall>q \<in> set k2. d \<notin> set (cell_get ?s2 q)"
  proof
    fix q assume "q \<in> set k2"
    then have qp: "q \<noteq> p" using n2 by auto
    have "\<forall>q. q \<noteq> p \<longrightarrow> cell_get ?s2 q = cell_get ?s1 q"
      using ex unfolding pass_frame_def by blast
    then have "cell_get ?s2 q = cell_get ?s1 q" using qp by blast
    moreover have "\<forall>q. set (cell_get ?s1 q) \<subseteq> set (cell_get s q)"
      using q1 unfolding quiet_def by blast
    then have "set (cell_get ?s1 q) \<subseteq> set (cell_get s q)" by blast
    moreover have "d \<notin> set (cell_get s q)" using assms(4) qp by blast
    ultimately show "d \<notin> set (cell_get ?s2 q)" by (metis subsetD)
  qed
  have q3: "quiet p d ?s2 ?s3" by (rule fold_advance_cell_quiet[OF n2 d2])
  have o: "objs ?s3 d = Some (Disturbance Grave (t + 1))"
    using q3 ex by (simp add: quiet_def)
  have c: "cleared ?s3 p"
    using q3 ex unfolding quiet_def cleared_def by simp
  have sd: "structural_damage s + 1 \<le> structural_damage ?s3"
    using q1 q3 ex unfolding quiet_def by linarith
  show ?thesis unfolding aa using o c sd by blast
qed

lemma cleared_contents:
  assumes "cleared s p"
  shows "\<not> list_ex (inst_Hostage s) (get_contents_at s p) \<and>
         \<not> list_ex (inst_Disturbance s) (get_contents_at s p)"
  using assms by (auto simp: cleared_def list_all_iff get_contents_at_def list_ex_iff)

subsection \<open>The fields written by the hazard pass\<close>

text \<open>
  The escalation loop writes the objects, the cell lists and the two counters
  \<open>hostages_lost\<close> and \<open>structural_damage\<close>, and no other field.
\<close>

definition hazard_frame :: "model \<Rightarrow> model \<Rightarrow> bool" where
  "hazard_frame s s' =
    (s' = s\<lparr>objs := objs s', cell_contents := cell_contents s',
           hostages_lost := hostages_lost s', structural_damage := structural_damage s'\<rparr>)"

lemma hazard_frame_refl: "hazard_frame s s"
  by (simp add: hazard_frame_def)

lemma hazard_frame_trans: "hazard_frame s s1 \<Longrightarrow> hazard_frame s1 s2 \<Longrightarrow> hazard_frame s s2"
  unfolding hazard_frame_def by (cases s, cases s1, cases s2) simp

lemma hazard_frameD:
  assumes "hazard_frame s s'"
  shows "width s' = width s" "height s' = height s" "agents s' = agents s"
    "random s' = random s" "next_entity_id s' = next_entity_id s"
  using assms unfolding hazard_frame_def by (cases s, cases s', simp)+

lemma fold_hazard_frame:
  assumes "\<And>x s. hazard_frame s (f x s)"
  shows "hazard_frame s (fold f xs s)"
proof (induction xs arbitrary: s)
  case Nil
  show ?case by (simp add: hazard_frame_refl)
next
  case (Cons x xs)
  from hazard_frame_trans[OF assms[of s x] Cons.IH[of "f x s"]] show ?case by simp
qed

lemma remove_entity_hazard_frame: "hazard_frame s (remove_entity e p s)"
  by (simp add: remove_entity_def hazard_frame_def)

lemma handle_explosion_hazard_frame: "hazard_frame s (handle_explosion p cs s)"
proof -
  let ?s1 = "s\<lparr>structural_damage := structural_damage s + 1\<rparr>"
  have 1: "hazard_frame s ?s1" by (simp add: hazard_frame_def)
  have h: "hazard_frame st (remove_entity x p (st\<lparr>hostages_lost := hostages_lost st + 1\<rparr>))" for x st
    by (simp add: remove_entity_def hazard_frame_def)
  let ?s2 = "fold (\<lambda>hostage st. remove_entity hostage p (st\<lparr>hostages_lost := hostages_lost st + 1\<rparr>))
                (filter (is_Hostage ?s1) cs) ?s1"
  have 2: "hazard_frame ?s1 ?s2" by (rule fold_hazard_frame) (rule h)
  have 3: "hazard_frame ?s2 (fold (\<lambda>disturbance st. remove_entity disturbance p st)
          (filter (is_Disturbance ?s2) cs) ?s2)"
    by (rule fold_hazard_frame) (rule remove_entity_hazard_frame)
  from hazard_frame_trans[OF hazard_frame_trans[OF 1 2] 3] show ?thesis
    by (simp add: handle_explosion_def Let_def)
qed

lemma advance_one_hazard_frame: "hazard_frame s (advance_one p d s)"
proof -
  have u: "hazard_frame s (s\<lparr>objs := o'\<rparr>)" for o' by (simp add: hazard_frame_def)
  show ?thesis
    using u hazard_frame_trans[OF u handle_explosion_hazard_frame] hazard_frame_refl[of s]
    by (simp add: advance_one_def Let_def split: option.split entity.split)
qed

lemma advance_cell_hazard_frame: "hazard_frame s (advance_cell p s)"
  unfolding advance_cell_def by (rule fold_hazard_frame) (rule advance_one_hazard_frame)

lemma advance_all_hazard_frame: "hazard_frame s (advance_all s)"
  unfolding advance_all_def by (rule fold_hazard_frame) (rule advance_cell_hazard_frame)


subsection \<open>Items kept by the pass\<close>

text \<open>
  What a part of the hazard pass keeps: an object that is not a Disturbance keeps its
  fields, no object becomes or stops being a Disturbance, and the items of a cell that
  are neither Hostages nor Disturbances stay where they are, in order.
\<close>

definition bystanders_kept :: "model \<Rightarrow> model \<Rightarrow> bool" where
  "bystanders_kept s s' =
    ((\<forall>x. \<not> is_Disturbance s x \<longrightarrow> objs s' x = objs s x) \<and>
     is_Disturbance s' = is_Disturbance s \<and>
     (\<forall>q. filter (\<lambda>x. \<not> is_Hostage s x \<and> \<not> is_Disturbance s x) (cell_get s' q) =
          filter (\<lambda>x. \<not> is_Hostage s x \<and> \<not> is_Disturbance s x) (cell_get s q)))"

lemma bystanders_kept_refl: "bystanders_kept s s"
  by (simp add: bystanders_kept_def)

lemma bystanders_kept_Hostage:
  assumes "bystanders_kept s s'"
  shows "is_Hostage s' = is_Hostage s"
proof
  fix x
  have excl: "is_Hostage t x \<Longrightarrow> \<not> is_Disturbance t x" for t
    by (auto simp: is_Disturbance_def is_Hostage_def split: option.splits entity.splits)
  have o: "\<not> is_Disturbance s x \<Longrightarrow> objs s' x = objs s x"
    using assms unfolding bystanders_kept_def by blast
  have d: "is_Disturbance s' x = is_Disturbance s x"
    using assms unfolding bystanders_kept_def by simp
  show "is_Hostage s' x = is_Hostage s x"
  proof (cases "is_Disturbance s x")
    case True
    then show ?thesis using excl[of s] excl[of s'] d by blast
  next
    case False
    from o[OF this] show ?thesis by (simp add: is_Hostage_def)
  qed
qed

lemma bystanders_kept_trans:
  assumes "bystanders_kept s s1" and "bystanders_kept s1 s2"
  shows "bystanders_kept s s2"
proof -
  have h: "is_Hostage s1 = is_Hostage s" by (rule bystanders_kept_Hostage[OF assms(1)])
  have d: "is_Disturbance s1 = is_Disturbance s" using assms(1) unfolding bystanders_kept_def by blast
  have d2: "is_Disturbance s2 = is_Disturbance s1" using assms(2) unfolding bystanders_kept_def by blast
  have o1: "\<And>x. \<not> is_Disturbance s x \<Longrightarrow> objs s1 x = objs s x"
    using assms(1) unfolding bystanders_kept_def by blast
  have o2: "\<And>x. \<not> is_Disturbance s1 x \<Longrightarrow> objs s2 x = objs s1 x"
    using assms(2) unfolding bystanders_kept_def by blast
  have c1: "\<And>q. filter (\<lambda>x. \<not> is_Hostage s x \<and> \<not> is_Disturbance s x) (cell_get s1 q) =
          filter (\<lambda>x. \<not> is_Hostage s x \<and> \<not> is_Disturbance s x) (cell_get s q)"
    using assms(1) unfolding bystanders_kept_def by blast
  have c2: "\<And>q. filter (\<lambda>x. \<not> is_Hostage s1 x \<and> \<not> is_Disturbance s1 x) (cell_get s2 q) =
          filter (\<lambda>x. \<not> is_Hostage s1 x \<and> \<not> is_Disturbance s1 x) (cell_get s1 q)"
    using assms(2) unfolding bystanders_kept_def by blast
  show ?thesis
    unfolding bystanders_kept_def
  proof (intro conjI allI impI)
    fix x assume "\<not> is_Disturbance s x"
    then show "objs s2 x = objs s x" using o1[of x] o2[of x] d by simp
  next
    show "is_Disturbance s2 = is_Disturbance s" using d d2 by simp
  next
    fix q
    show "filter (\<lambda>x. \<not> is_Hostage s x \<and> \<not> is_Disturbance s x) (cell_get s2 q) =
          filter (\<lambda>x. \<not> is_Hostage s x \<and> \<not> is_Disturbance s x) (cell_get s q)"
      using c1[of q] c2[of q] unfolding h d by simp
  qed
qed

lemma fold_bystanders_kept:
  assumes "\<And>x s. bystanders_kept s (f x s)"
  shows "bystanders_kept s (fold f xs s)"
proof (induction xs arbitrary: s)
  case Nil
  show ?case by (simp add: bystanders_kept_refl)
next
  case (Cons x xs)
  from bystanders_kept_trans[OF assms Cons.IH[of "f x s"]] show ?case by simp
qed

lemma advance_one_bystanders_kept: "bystanders_kept s (advance_one p d s)"
proof (cases "objs s d")
  case None
  then show ?thesis by (simp add: advance_one_def bystanders_kept_refl)
next
  case (Some e)
  show ?thesis
  proof (cases e)
    case (Disturbance sev t)
    have upd: "bystanders_kept s (s\<lparr>objs := (objs s)(d \<mapsto> Disturbance sev' t')\<rparr>)" for sev' t'
      using Some Disturbance
      by (auto simp: bystanders_kept_def is_Disturbance_def cell_get_def fun_eq_iff)
    show ?thesis
    proof (cases "sev = Active \<and> t + 1 \<ge> 6")
      case True
      then have o: "objs s d = Some (Disturbance Active t)" and g: "t + 1 \<ge> 6"
        using Some Disturbance by simp_all
      note st = explosion_step[OF o g, of p]
      have dd: "is_Disturbance s d" using o by (simp add: is_Disturbance_def)
      have 1: "\<forall>x. \<not> is_Disturbance s x \<longrightarrow> objs (advance_one p d s) x = objs s x"
        using st dd by auto
      have 2: "is_Disturbance (advance_one p d s) = is_Disturbance s" using st by blast
      have 3: "filter (\<lambda>x. \<not> is_Hostage s x \<and> \<not> is_Disturbance s x) (cell_get (advance_one p d s) q) =
          filter (\<lambda>x. \<not> is_Hostage s x \<and> \<not> is_Disturbance s x) (cell_get s q)" for q
      proof (cases "q = p")
        case True
        have "cell_get (advance_one p d s) p =
           filter (\<lambda>r. \<not> is_Hostage s r \<and> \<not> is_Disturbance s r) (cell_get s p)"
          using st by blast
        then show ?thesis unfolding True by simp
      next
        case False
        have "\<forall>q. q \<noteq> p \<longrightarrow> cell_get (advance_one p d s) q = cell_get s q" using st by blast
        then have "cell_get (advance_one p d s) q = cell_get s q" using False by blast
        then show ?thesis by simp
      qed
      show ?thesis unfolding bystanders_kept_def using 1 2 3 by blast
    next
      case False
      then have "advance_one p d s = s\<lparr>objs := (objs s)(d \<mapsto> Disturbance Active 0)\<rparr> \<or>
                 advance_one p d s = s\<lparr>objs := (objs s)(d \<mapsto> Disturbance sev (t + 1))\<rparr>"
        using Some Disturbance by (auto simp: advance_one_def Let_def)
      then show ?thesis using upd by auto
    qed
  qed (use Some in \<open>simp_all add: advance_one_def bystanders_kept_refl\<close>)
qed

lemma advance_cell_bystanders_kept: "bystanders_kept s (advance_cell p s)"
  unfolding advance_cell_def by (rule fold_bystanders_kept) (rule advance_one_bystanders_kept)

lemma advance_all_bystanders_kept: "bystanders_kept s (advance_all s)"
  unfolding advance_all_def by (rule fold_bystanders_kept) (rule advance_cell_bystanders_kept)

subsection \<open>Closed Gates and the pass\<close>

text \<open>The closed Gates of a cell are among the items that the pass keeps.\<close>

lemma cell_closed_kept:
  assumes "hazard_frame s s'" and "bystanders_kept s s'"
  shows "cell_closed s' q = cell_closed s q"
proof -
  let ?P = "\<lambda>x. \<not> is_Hostage s x \<and> \<not> is_Disturbance s x"
  have o: "\<And>x. \<not> is_Disturbance s x \<Longrightarrow> objs s' x = objs s x"
    using assms(2) unfolding bystanders_kept_def by blast
  have d: "is_Disturbance s' = is_Disturbance s" using assms(2) unfolding bystanders_kept_def by blast
  have f: "filter ?P (cell_get s' q) = filter ?P (cell_get s q)"
    using assms(2) unfolding bystanders_kept_def by blast
  have g: "closed_gate s' (CEntity x) = closed_gate s (CEntity x)" for x
  proof (cases "is_Disturbance s x")
    case True
    then have "is_Disturbance s' x" using d by simp
    with True show ?thesis
      by (auto simp: closed_gate_def is_Gate_def is_Disturbance_def split: option.splits entity.splits)
  next
    case False
    from o[OF this] show ?thesis by (simp add: closed_gate_def is_Gate_def)
  qed
  have gp: "closed_gate s (CEntity x) \<Longrightarrow> ?P x" for x
    by (auto simp: closed_gate_def is_Gate_def is_Disturbance_def is_Hostage_def
             split: option.splits entity.splits)
  have e: "list_ex (\<lambda>x. closed_gate s (CEntity x)) l =
           list_ex (\<lambda>x. closed_gate s (CEntity x)) (filter ?P l)" for l
    using gp by (auto simp: list_ex_iff)
  have ca: "\<not> list_ex (closed_gate t) (map CAgent l)" for t l
    by (induction l) (simp_all add: closed_gate_def)
  have ce: "list_ex (closed_gate t) (map CEntity l) = list_ex (\<lambda>x. closed_gate t (CEntity x)) l" for t l
    by (induction l) simp_all
  have c: "cell_closed t q = list_ex (\<lambda>x. closed_gate t (CEntity x)) (cell_get t q)" for t
    by (simp add: cell_closed_def get_contents_at_def ca ce)
  have "cell_closed s' q = list_ex (\<lambda>x. closed_gate s (CEntity x)) (cell_get s' q)"
    unfolding c using g by simp
  also have "\<dots> = list_ex (\<lambda>x. closed_gate s (CEntity x)) (filter ?P (cell_get s' q))" by (rule e)
  also have "\<dots> = list_ex (\<lambda>x. closed_gate s (CEntity x)) (filter ?P (cell_get s q))" unfolding f ..
  also have "\<dots> = cell_closed s q" unfolding c e[symmetric] ..
  finally show ?thesis .
qed

lemma advance_all_cell_closed: "cell_closed (advance_all s) = cell_closed s"
  by (rule ext) (rule cell_closed_kept[OF advance_all_hazard_frame advance_all_bystanders_kept])



subsection \<open>When the search returns\<close>


lemma get_available_cell_returns:
  assumes "0 < width s" "0 < height s" "\<not> cell_closed s (draw_cell s k)"
  shows "\<exists>p r. get_available_cell s = Some (Inr (p, s\<lparr>random := r\<rparr>)) \<and> \<not> cell_closed s p \<and>
               0 \<le> fst p \<and> fst p < width s \<and> 0 \<le> snd p \<and> snd p < height s"
proof -
  from assms(3) have "\<exists>k. \<not> cell_closed s (draw_cell s k)" by blast
  then obtain m where m: "\<not> cell_closed s (draw_cell s m)" "\<forall>j<m. cell_closed s (draw_cell s j)"
    using exists_least_iff[of "\<lambda>k. \<not> cell_closed s (draw_cell s k)"] by auto
  from get_available_cell_first_free[OF assms(1,2) m(2) m(1)] m(1) draw_cell_in_grid[OF assms(1,2), of m]
  show ?thesis by blast
qed



subsection \<open>The spawn at the end of the pass\<close>

text \<open>
  What the spawn at the end of the pass changes: nothing but the generator, or else
  one fresh Disturbance, mild with counter 0, appended to a cell that held none.
\<close>

lemma spawn_disturbance_frame:
  assumes "spawn_disturbance s = Some (Inr s')"
  shows "structural_damage s' = structural_damage s \<and> hostages_lost s' = hostages_lost s \<and>
         agents s' = agents s \<and>
         ((objs s' = objs s \<and> cell_get s' = cell_get s) \<or>
          (fst (random_less_005 (random s)) \<and>
           objs s' = (objs s)(next_entity_id s + 1 \<mapsto> Disturbance Mild 0) \<and>
           (\<exists>q. \<forall>q'. cell_get s' q' =
                  (if q' = q then cell_get s q @ [next_entity_id s + 1] else cell_get s q'))))"
proof -
  obtain b r1 where b: "random_less_005 (random s) = (b, r1)" by (metis prod.exhaust)
  show ?thesis
  proof (cases b)
    case False
    with assms b have "s' = s\<lparr>random := r1\<rparr>" by (auto simp: spawn_disturbance_def)
    then show ?thesis by (simp add: cell_get_def fun_eq_iff)
  next
    case True
    with assms b obtain p s2 where g: "get_available_cell (s\<lparr>random := r1\<rparr>) = Some (Inr (p, s2))"
      by (auto simp: spawn_disturbance_def split: option.splits sum.splits)
    from get_available_cell_random_only[OF g] obtain r where s2: "s2 = s\<lparr>random := r\<rparr>" by auto
    have cg: "cell_get (s\<lparr>random := r\<rparr>) = cell_get s" by (simp add: cell_get_def fun_eq_iff)
    show ?thesis
    proof (cases "list_ex (inst_Disturbance s2) (get_contents_at s2 p)")
      case T: True
      with assms b True g have "s' = s2" by (simp add: spawn_disturbance_def)
      then show ?thesis by (simp add: s2 cg)
    next
      case F: False
      let ?i = "next_entity_id s + 1"
      let ?s3 = "s\<lparr>random := r, next_entity_id := ?i, objs := (objs s)(?i \<mapsto> Disturbance Mild 0)\<rparr>"
      from assms b True g F have s': "s' = append_entity ?i p ?s3"
        by (simp add: spawn_disturbance_def s2 get_next_id_def)
      have c3: "cell_get ?s3 = cell_get s" by (simp add: cell_get_def fun_eq_iff)
      have cu: "cell_get s' q' = (if q' = p then cell_get s p @ [?i] else cell_get s q')" for q'
        by (simp add: s' append_entity_def cell_get_def update_conv')
      have o: "objs s' = (objs s)(?i \<mapsto> Disturbance Mild 0)"
        by (simp add: s' append_entity_def)
      have f: "structural_damage s' = structural_damage s \<and> hostages_lost s' = hostages_lost s \<and>
         agents s' = agents s" by (simp add: s' append_entity_def)
      have d: "fst (random_less_005 (random s))" using b True by simp
      show ?thesis using f o cu d by blast
    qed
  qed
qed

text \<open>Hostages lost so far plus Hostages still on the cell \<open>p\<close>: no step of the pass lowers it.\<close>

definition lost_or_here :: "pos \<Rightarrow> model \<Rightarrow> int" where
  "lost_or_here p s = hostages_lost s + int (length (filter (is_Hostage s) (cell_get s p)))"

lemma advance_one_lost_or_here: "lost_or_here p s \<le> lost_or_here p (advance_one q d s)"
proof (cases "objs s d")
  case None
  then show ?thesis by (simp add: advance_one_def)
next
  case (Some e)
  show ?thesis
  proof (cases e)
    case (Disturbance sev t)
    have upd: "lost_or_here p (s\<lparr>objs := (objs s)(d \<mapsto> Disturbance sev' t')\<rparr>) = lost_or_here p s"
      for sev' t'
    proof -
      have "is_Hostage (s\<lparr>objs := (objs s)(d \<mapsto> Disturbance sev' t')\<rparr>) = is_Hostage s"
        using Some Disturbance by (auto simp: is_Hostage_def fun_eq_iff)
      then show ?thesis by (simp add: lost_or_here_def cell_get_def)
    qed
    show ?thesis
    proof (cases "sev = Active \<and> t + 1 \<ge> 6")
      case True
      then have o: "objs s d = Some (Disturbance Active t)" and g: "t + 1 \<ge> 6"
        using Some Disturbance by simp_all
      note st = explosion_step[OF o g, of q]
      have h: "is_Hostage (advance_one q d s) = is_Hostage s" using st by blast
      have hl: "hostages_lost (advance_one q d s) =
           hostages_lost s + int (length (filter (is_Hostage s) (cell_get s q)))" using st by blast
      show ?thesis
      proof (cases "p = q")
        case T: True
        have "cell_get (advance_one q d s) q =
           filter (\<lambda>r. \<not> is_Hostage s r \<and> \<not> is_Disturbance s r) (cell_get s q)" using st by blast
        then have "filter (is_Hostage s) (cell_get (advance_one q d s) q) = []"
          by (auto simp: filter_empty_conv)
        then show ?thesis unfolding lost_or_here_def T h hl by simp
      next
        case F: False
        have "\<forall>q'. q' \<noteq> q \<longrightarrow> cell_get (advance_one q d s) q' = cell_get s q'" using st by blast
        then have "cell_get (advance_one q d s) p = cell_get s p" using F by blast
        then show ?thesis unfolding lost_or_here_def h hl by simp
      qed
    next
      case False
      then have "advance_one q d s = s\<lparr>objs := (objs s)(d \<mapsto> Disturbance Active 0)\<rparr> \<or>
                 advance_one q d s = s\<lparr>objs := (objs s)(d \<mapsto> Disturbance sev (t + 1))\<rparr>"
        using Some Disturbance by (auto simp: advance_one_def Let_def)
      then show ?thesis using upd by auto
    qed
  qed (use Some in \<open>simp_all add: advance_one_def\<close>)
qed

lemma fold_lost_or_here:
  assumes "\<And>x s. lost_or_here p s \<le> lost_or_here p (f x s)"
  shows "lost_or_here p s \<le> lost_or_here p (fold f xs s)"
proof (induction xs arbitrary: s)
  case Nil
  show ?case by simp
next
  case (Cons x xs)
  from assms[of s x] Cons.IH[of "f x s"] show ?case by simp
qed

lemma advance_cell_lost_or_here: "lost_or_here p s \<le> lost_or_here p (advance_cell q s)"
  unfolding advance_cell_def by (rule fold_lost_or_here) (rule advance_one_lost_or_here)

lemma advance_all_lost_or_here: "lost_or_here p s \<le> lost_or_here p (advance_all s)"
  unfolding advance_all_def by (rule fold_lost_or_here) (rule advance_cell_lost_or_here)


lemma advance_all_explodes_cell:
  assumes "distinct (map fst (cell_contents s))"
    and "d \<in> set (cell_get s p)" and "distinct (cell_get s p)"
    and "\<forall>q. q \<noteq> p \<longrightarrow> d \<notin> set (cell_get s q)"
    and "objs s d = Some (Disturbance Active t)" and "t + 1 \<ge> 6"
  shows "objs (advance_all s) d = Some (Disturbance Grave (t + 1)) \<and>
         cell_get (advance_all s) p =
           filter (\<lambda>r. \<not> is_Hostage s r \<and> \<not> is_Disturbance s r) (cell_get s p) \<and>
         is_Hostage (advance_all s) = is_Hostage s \<and>
         is_Disturbance (advance_all s) = is_Disturbance s \<and>
         structural_damage s + 1 \<le> structural_damage (advance_all s) \<and>
         hostages_lost s + int (length (filter (is_Hostage s) (cell_get s p)))
           \<le> hostages_lost (advance_all s)"
proof -
  let ?a = "advance_all s"
  let ?P = "\<lambda>r. \<not> is_Hostage s r \<and> \<not> is_Disturbance s r"
  note ex = advance_all_explodes[OF assms]
  note bk = advance_all_bystanders_kept[of s]
  have h: "is_Hostage ?a = is_Hostage s" by (rule bystanders_kept_Hostage[OF bk])
  have dd: "is_Disturbance ?a = is_Disturbance s" using bk unfolding bystanders_kept_def by blast
  have f: "filter ?P (cell_get ?a p) = filter ?P (cell_get s p)"
    using bk unfolding bystanders_kept_def by blast
  have "cleared ?a p" using ex by blast
  then have "\<forall>r \<in> set (cell_get ?a p). ?P r"
    unfolding cleared_def list_all_iff h dd by simp
  then have "filter ?P (cell_get ?a p) = cell_get ?a p" by (simp add: filter_id_conv)
  with f have c: "cell_get ?a p = filter ?P (cell_get s p)" by simp
  have "filter (is_Hostage s) (cell_get ?a p) = []" unfolding c by (auto simp: filter_empty_conv)
  then have "lost_or_here p ?a = hostages_lost ?a" by (simp add: lost_or_here_def h)
  with advance_all_lost_or_here[of p s]
  have hl: "hostages_lost s + int (length (filter (is_Hostage s) (cell_get s p))) \<le> hostages_lost ?a"
    by (simp add: lost_or_here_def)
  show ?thesis using ex c h dd hl by blast
qed

lemma advance_disturbances_explodes:
  assumes "distinct (map fst (cell_contents s))"
    and "d \<in> set (cell_get s p)" and "distinct (cell_get s p)"
    and "\<forall>q. q \<noteq> p \<longrightarrow> d \<notin> set (cell_get s q)"
    and fresh: "\<forall>x \<in> set (cell_get s p). x \<le> next_entity_id s"
    and "objs s d = Some (Disturbance Active t)" and "t + 1 \<ge> 6"
    and ret: "advance_disturbances s = Some (Inr s')"
  shows "objs s' d = Some (Disturbance Grave (t + 1)) \<and>
         (\<forall>x \<in> set (cell_get s p). is_Hostage s x \<or> is_Disturbance s x \<longrightarrow> x \<notin> set (cell_get s' p)) \<and>
         \<not> list_ex (inst_Hostage s') (get_contents_at s' p) \<and>
         (\<forall>x \<in> set (cell_get s' p). is_Disturbance s' x \<longrightarrow>
            fst (random_less_005 (random s)) \<and> x = next_entity_id s + 1 \<and>
            x \<notin> set (cell_get s p) \<and> objs s' x = Some (Disturbance Mild 0)) \<and>
         structural_damage s + 1 \<le> structural_damage s' \<and>
         hostages_lost s + int (length (filter (is_Hostage s) (cell_get s p))) \<le> hostages_lost s'"
proof -
  let ?a = "advance_all s"
  let ?P = "\<lambda>r. \<not> is_Hostage s r \<and> \<not> is_Disturbance s r"
  let ?i = "next_entity_id s + 1"
  note ex = advance_all_explodes_cell[OF assms(1-4) assms(6,7)]
  note fr = hazard_frameD[OF advance_all_hazard_frame[of s]]
  have sp: "spawn_disturbance ?a = Some (Inr s')" using ret by (simp add: advance_disturbances_def)
  note sf = spawn_disturbance_frame[OF sp]
  have oa: "objs ?a d = Some (Disturbance Grave (t + 1))" using ex by blast
  have ca: "cell_get ?a p = filter ?P (cell_get s p)" using ex by blast
  have ha: "is_Hostage ?a = is_Hostage s" and da: "is_Disturbance ?a = is_Disturbance s"
    using ex by blast+
  have sd: "structural_damage s + 1 \<le> structural_damage s'" using ex sf by simp
  have hl: "hostages_lost s + int (length (filter (is_Hostage s) (cell_get s p))) \<le> hostages_lost s'"
    using ex sf by simp
  have fi: "?i \<notin> set (cell_get s p)" using fresh by auto
  have di: "d \<noteq> ?i" using fi assms(2) by blast
  from sf have alt: "(objs s' = objs ?a \<and> cell_get s' = cell_get ?a) \<or>
          (fst (random_less_005 (random s)) \<and>
           objs s' = (objs ?a)(?i \<mapsto> Disturbance Mild 0) \<and>
           (\<exists>q. \<forall>q'. cell_get s' q' = (if q' = q then cell_get ?a q @ [?i] else cell_get ?a q')))"
    unfolding fr by blast
  show ?thesis
  proof (rule disjE[OF alt])
    assume a: "objs s' = objs ?a \<and> cell_get s' = cell_get ?a"
    then have hs: "is_Hostage s' = is_Hostage s" and ds: "is_Disturbance s' = is_Disturbance s"
      using is_class_objs[of s' ?a] ha da by simp_all
    have c: "cell_get s' p = filter ?P (cell_get s p)" using a ca by simp
    have 1: "objs s' d = Some (Disturbance Grave (t + 1))" using a oa by simp
    have 2: "\<forall>x \<in> set (cell_get s p). is_Hostage s x \<or> is_Disturbance s x \<longrightarrow> x \<notin> set (cell_get s' p)"
      unfolding c by auto
    have 3: "\<not> list_ex (inst_Hostage s') (get_contents_at s' p)"
      by (auto simp: get_contents_at_def list_ex_iff c hs)
    have 4: "\<forall>x \<in> set (cell_get s' p). is_Disturbance s' x \<longrightarrow>
            fst (random_less_005 (random s)) \<and> x = ?i \<and>
            x \<notin> set (cell_get s p) \<and> objs s' x = Some (Disturbance Mild 0)"
      unfolding c ds by auto
    show ?thesis using 1 2 3 4 sd hl by blast
  next
    assume b: "fst (random_less_005 (random s)) \<and>
           objs s' = (objs ?a)(?i \<mapsto> Disturbance Mild 0) \<and>
           (\<exists>q. \<forall>q'. cell_get s' q' = (if q' = q then cell_get ?a q @ [?i] else cell_get ?a q'))"
    then have o: "objs s' = (objs ?a)(?i \<mapsto> Disturbance Mild 0)" by blast
    have oi: "objs s' ?i = Some (Disturbance Mild 0)" unfolding o by simp
    have ox: "x \<noteq> ?i \<Longrightarrow> objs s' x = objs ?a x" for x unfolding o by simp
    have hx: "is_Hostage s' x = (x \<noteq> ?i \<and> is_Hostage s x)" for x
    proof (cases "x = ?i")
      case True
      then show ?thesis using oi by (simp add: is_Hostage_def)
    next
      case False
      have "is_Hostage s' x = is_Hostage ?a x" using ox[OF False] by (simp add: is_Hostage_def)
      then show ?thesis using False ha by simp
    qed
    have dx: "x \<noteq> ?i \<Longrightarrow> is_Disturbance s' x = is_Disturbance s x" for x
    proof -
      assume "x \<noteq> ?i"
      then have "is_Disturbance s' x = is_Disturbance ?a x" using ox[of x] by (simp add: is_Disturbance_def)
      then show ?thesis using da by simp
    qed
    from b obtain q where q: "\<forall>q'. cell_get s' q' = (if q' = q then cell_get ?a q @ [?i] else cell_get ?a q')"
      by blast
    from q have "cell_get s' p = (if p = q then cell_get ?a q @ [?i] else cell_get ?a p)" by blast
    then have "cell_get s' p = cell_get ?a p @ [?i] \<or> cell_get s' p = cell_get ?a p"
      by (cases "p = q") simp_all
    then have c: "set (cell_get s' p) \<subseteq> set (filter ?P (cell_get s p)) \<union> {?i}"
      unfolding ca by auto
    have 1: "objs s' d = Some (Disturbance Grave (t + 1))" using ox[OF di] oa by simp
    have 2: "\<forall>x \<in> set (cell_get s p). is_Hostage s x \<or> is_Disturbance s x \<longrightarrow> x \<notin> set (cell_get s' p)"
    proof (intro ballI impI)
      fix x assume x: "x \<in> set (cell_get s p)" and hd: "is_Hostage s x \<or> is_Disturbance s x"
      then have "x \<noteq> ?i" using fi by blast
      moreover have "x \<notin> set (filter ?P (cell_get s p))" using hd by auto
      ultimately show "x \<notin> set (cell_get s' p)" using c by blast
    qed
    have 3: "\<not> list_ex (inst_Hostage s') (get_contents_at s' p)"
    proof -
      have "\<not> is_Hostage s' x" if "x \<in> set (cell_get s' p)" for x
      proof (cases "x = ?i")
        case True
        then show ?thesis by (simp add: hx)
      next
        case False
        with that c have "x \<in> set (filter ?P (cell_get s p))" by blast
        then show ?thesis by (simp add: hx)
      qed
      then show ?thesis by (auto simp: get_contents_at_def list_ex_iff)
    qed
    have 4: "\<forall>x \<in> set (cell_get s' p). is_Disturbance s' x \<longrightarrow>
            fst (random_less_005 (random s)) \<and> x = ?i \<and>
            x \<notin> set (cell_get s p) \<and> objs s' x = Some (Disturbance Mild 0)"
    proof (intro ballI impI)
      fix x assume x: "x \<in> set (cell_get s' p)" and xd: "is_Disturbance s' x"
      have xi: "x = ?i"
      proof (rule ccontr)
        assume n: "x \<noteq> ?i"
        with x c have "x \<in> set (filter ?P (cell_get s p))" by blast
        then have "\<not> is_Disturbance s x" by simp
        with dx[OF n] xd show False by simp
      qed
      show "fst (random_less_005 (random s)) \<and> x = ?i \<and>
            x \<notin> set (cell_get s p) \<and> objs s' x = Some (Disturbance Mild 0)"
        using b xi fi oi by simp
    qed
    show ?thesis using 1 2 3 4 sd hl by blast
  qed
qed

lemma advance_disturbances_no_draw:
  assumes "\<not> fst (random_less_005 (random s))"
  shows "advance_disturbances s = Some (Inr ((advance_all s)\<lparr>random := rng_tail (random s)\<rparr>))"
proof -
  note fr = hazard_frameD[OF advance_all_hazard_frame[of s]]
  show ?thesis
    unfolding advance_disturbances_def
    using spawn_disturbance_no_draw[of "advance_all s"] assms by (simp add: fr)
qed

lemma advance_disturbances_returns:
  assumes "0 < width s" "0 < height s"
    and "\<not> cell_closed s (draw_cell (s\<lparr>random := rng_tail (random s)\<rparr>) k)"
  shows "\<exists>s'. advance_disturbances s = Some (Inr s')"
proof (cases "fst (random_less_005 (random s))")
  case False
  from advance_disturbances_no_draw[OF this] show ?thesis by blast
next
  case True
  let ?a = "advance_all s"
  note fr = hazard_frameD[OF advance_all_hazard_frame[of s]]
  let ?a1 = "?a\<lparr>random := rng_tail (random ?a)\<rparr>"
  have dc: "draw_cell ?a1 k = draw_cell (s\<lparr>random := rng_tail (random s)\<rparr>) k"
    by (simp add: draw_cell_def fr)
  have "\<not> cell_closed ?a1 (draw_cell ?a1 k)"
    unfolding dc using assms(3) by (simp add: advance_all_cell_closed)
  from get_available_cell_returns[of ?a1 k, OF _ _ this] assms(1,2)
  obtain p r where g: "get_available_cell ?a1 = Some (Inr (p, ?a1\<lparr>random := r\<rparr>))"
    by (auto simp: fr)
  have b: "random_less_005 (random ?a) = (True, rng_tail (random ?a))"
    using True by (simp add: random_less_005_def fr)
  show ?thesis
    unfolding advance_disturbances_def spawn_disturbance_def
    by (simp add: b g split: prod.split)
qed

subsection \<open>A pass with a single explosion\<close>

text \<open>The Disturbance is active and its counter reaches 6 with the next increment.\<close>

definition due :: "model \<Rightarrow> nat \<Rightarrow> bool" where
  "due s x = (case objs s x of Some (Disturbance sev t) \<Rightarrow> sev = Active \<and> t + 1 \<ge> 6 | _ \<Rightarrow> False)"

text \<open>
  A part of the pass in which nothing explodes: the cells and the counters are as
  before, and only the objects in \<open>X\<close> may have new fields.
\<close>

definition calm :: "nat set \<Rightarrow> model \<Rightarrow> model \<Rightarrow> bool" where
  "calm X s s' =
    (cell_contents s' = cell_contents s \<and> structural_damage s' = structural_damage s \<and>
     hostages_lost s' = hostages_lost s \<and> (\<forall>y. y \<notin> X \<longrightarrow> objs s' y = objs s y))"

lemma calm_refl: "calm X s s"
  by (simp add: calm_def)

lemma calm_trans: "calm X s s1 \<Longrightarrow> calm Y s1 s2 \<Longrightarrow> calm (X \<union> Y) s s2"
  by (simp add: calm_def)

lemma calm_cell_get: "calm X s s' \<Longrightarrow> cell_get s' = cell_get s"
  by (simp add: calm_def cell_get_def fun_eq_iff)

lemma calm_due: "calm X s s' \<Longrightarrow> y \<notin> X \<Longrightarrow> due s' y = due s y"
  by (simp add: calm_def due_def)

lemma advance_one_calm: "\<not> due s x \<Longrightarrow> calm {x} s (advance_one q x s)"
  by (auto simp: advance_one_def due_def calm_def Let_def split: option.splits entity.splits)

lemma fold_advance_one_calm:
  assumes "distinct xs" and "\<forall>x \<in> set xs. \<not> due s x"
  shows "calm (set xs) s (fold (advance_one q) xs s)"
  using assms
proof (induction xs arbitrary: s)
  case Nil
  show ?case by (simp add: calm_refl)
next
  case (Cons x xs)
  let ?s1 = "advance_one q x s"
  have c1: "calm {x} s ?s1" using Cons.prems(2) by (simp add: advance_one_calm)
  have "\<forall>y \<in> set xs. \<not> due ?s1 y"
  proof
    fix y assume y: "y \<in> set xs"
    then have "y \<notin> {x}" using Cons.prems(1) by auto
    from calm_due[OF c1 this] Cons.prems(2) y show "\<not> due ?s1 y" by simp
  qed
  with Cons.IH[of ?s1] Cons.prems(1) have "calm (set xs) ?s1 (fold (advance_one q) xs ?s1)" by simp
  from calm_trans[OF c1 this] show ?case by simp
qed

lemma advance_cell_calm:
  assumes "distinct (cell_get s q)" and "\<forall>x \<in> set (cell_get s q). \<not> due s x"
  shows "calm (set (cell_get s q)) s (advance_cell q s)"
proof -
  let ?ds = "filter (is_Disturbance s) (cell_get s q)"
  have "calm (set ?ds) s (fold (advance_one q) ?ds s)"
    using assms by (intro fold_advance_one_calm) auto
  then show ?thesis unfolding advance_cell_def calm_def by auto
qed

lemma fold_advance_cell_calm:
  assumes "distinct ks" and "\<forall>q \<in> set ks. distinct (cell_get s q)"
    and "\<forall>q \<in> set ks. \<forall>q' \<in> set ks. q \<noteq> q' \<longrightarrow> set (cell_get s q) \<inter> set (cell_get s q') = {}"
    and "\<forall>q \<in> set ks. \<forall>x \<in> set (cell_get s q). \<not> due s x"
  shows "calm (\<Union>q \<in> set ks. set (cell_get s q)) s (fold advance_cell ks s)"
  using assms
proof (induction ks arbitrary: s)
  case Nil
  show ?case by (simp add: calm_refl)
next
  case (Cons k ks)
  let ?s1 = "advance_cell k s"
  have c1: "calm (set (cell_get s k)) s ?s1"
    using Cons.prems(2,4) by (intro advance_cell_calm) auto
  have cg: "cell_get ?s1 = cell_get s" by (rule calm_cell_get[OF c1])
  have nd: "\<forall>q \<in> set ks. \<forall>x \<in> set (cell_get ?s1 q). \<not> due ?s1 x"
  proof (intro ballI)
    fix q x assume q: "q \<in> set ks" and x: "x \<in> set (cell_get ?s1 q)"
    have qk: "q \<noteq> k" using q Cons.prems(1) by auto
    have "set (cell_get s q) \<inter> set (cell_get s k) = {}"
      using Cons.prems(3) q qk by simp
    with x have "x \<notin> set (cell_get s k)" unfolding cg by blast
    from calm_due[OF c1 this] Cons.prems(4) q x show "\<not> due ?s1 x" unfolding cg by simp
  qed
  have "calm (\<Union>q \<in> set ks. set (cell_get ?s1 q)) ?s1 (fold advance_cell ks ?s1)"
    using Cons.prems(1,2,3) nd by (intro Cons.IH) (simp_all add: cg)
  from calm_trans[OF c1 this] show ?case by (simp add: cg)
qed

text \<open>Every object stands in one cell only, once.\<close>

lemma concat_disjoint:
  assumes "distinct (concat (map snd cc))" and "distinct (map fst cc)"
    and "map_of cc q = Some l" and "map_of cc q' = Some l'" and "q \<noteq> q'"
  shows "set l \<inter> set l' = {}"
  using assms
proof (induction cc)
  case Nil
  then show ?case by simp
next
  case (Cons a cc)
  obtain k v where a: "a = (k, v)" by (cases a)
  have sub: "map_of cc z = Some m \<Longrightarrow> set m \<subseteq> set (concat (map snd cc))" for z m
    by (auto dest!: map_of_SomeD) 
  have dv: "set v \<inter> set (concat (map snd cc)) = {}" using Cons.prems(1) a by auto
  show ?case
  proof (cases "q = k")
    case True
    then have l: "l = v" using Cons.prems(3) a by simp
    have "map_of cc q' = Some l'" using Cons.prems(4,5) True a by simp
    from sub[OF this] dv l show ?thesis by blast
  next
    case False
    then have ql: "map_of cc q = Some l" using Cons.prems(3) a by simp
    show ?thesis
    proof (cases "q' = k")
      case True
      then have l': "l' = v" using Cons.prems(4) a by simp
      from sub[OF ql] dv l' show ?thesis by blast
    next
      case F: False
      then have "map_of cc q' = Some l'" using Cons.prems(4) a by simp
      with Cons.IH ql Cons.prems(1,2,5) a show ?thesis by simp
    qed
  qed
qed

lemma cells_unique:
  assumes "distinct (concat (map snd (cell_contents s)))" and "distinct (map fst (cell_contents s))"
  shows "distinct (cell_get s q)"
    and "q \<noteq> q' \<Longrightarrow> set (cell_get s q) \<inter> set (cell_get s q') = {}"
proof -
  show "distinct (cell_get s q)"
  proof (cases "map_of (cell_contents s) q")
    case None
    then show ?thesis by (simp add: cell_get_def)
  next
    case (Some l)
    then have "l \<in> set (map snd (cell_contents s))" by (force dest!: map_of_SomeD)
    with assms(1) have "distinct l" by (simp add: distinct_concat_iff)
    with Some show ?thesis by (simp add: cell_get_def)
  qed
  show "set (cell_get s q) \<inter> set (cell_get s q') = {}" if "q \<noteq> q'"
  proof (cases "map_of (cell_contents s) q")
    case None
    then show ?thesis by (simp add: cell_get_def)
  next
    case (Some l)
    show ?thesis
    proof (cases "map_of (cell_contents s) q'")
      case None
      then show ?thesis by (simp add: cell_get_def)
    next
      case S: (Some l')
      from concat_disjoint[OF assms Some S that] Some S show ?thesis by (simp add: cell_get_def)
    qed
  qed
qed

lemma due_cong: "objs s' x = objs s x \<Longrightarrow> due s' x = due s x"
  by (simp add: due_def)

lemma advance_all_sole_explosion:
  assumes U1: "distinct (map fst (cell_contents s))"
    and U2: "distinct (concat (map snd (cell_contents s)))"
    and dp: "d \<in> set (cell_get s p)"
    and o: "objs s d = Some (Disturbance Active t)" and g: "t + 1 \<ge> 6"
    and sole: "\<forall>q. \<forall>x \<in> set (cell_get s q). x \<noteq> d \<longrightarrow> \<not> due s x"
  shows "structural_damage (advance_all s) = structural_damage s + 1 \<and>
         hostages_lost (advance_all s) =
           hostages_lost s + int (length (filter (is_Hostage s) (cell_get s p)))"
proof -
  let ?ks = "map fst (cell_contents s)"
  note uq = cells_unique[OF U2 U1]
  have "map_of (cell_contents s) p \<noteq> None"
  proof
    assume "map_of (cell_contents s) p = None"
    then have "cell_get s p = []" by (simp add: cell_get_def)
    with dp show False by simp
  qed
  then have "p \<in> set ?ks" by (auto simp: map_of_eq_None_iff)
  then obtain k1 k2 where sp: "?ks = k1 @ p # k2" by (meson split_list)
  have n1: "p \<notin> set k1" and n2: "p \<notin> set k2" and dk1: "distinct k1" and dk2: "distinct k2"
    and k12: "set k1 \<inter> set k2 = {}"
    using U1 unfolding sp by auto
  have donly: "q \<noteq> p \<Longrightarrow> d \<notin> set (cell_get s q)" for q
    using uq(2)[of q p] dp by blast
  let ?X1 = "\<Union>q \<in> set k1. set (cell_get s q)"
  let ?s1 = "fold advance_cell k1 s"
  have c1: "calm ?X1 s ?s1"
  proof (rule fold_advance_cell_calm[OF dk1])
    show "\<forall>q \<in> set k1. distinct (cell_get s q)" using uq(1) by blast
    show "\<forall>q \<in> set k1. \<forall>q' \<in> set k1. q \<noteq> q' \<longrightarrow> set (cell_get s q) \<inter> set (cell_get s q') = {}"
      using uq(2) by blast
    show "\<forall>q \<in> set k1. \<forall>x \<in> set (cell_get s q). \<not> due s x"
    proof (intro ballI)
      fix q x assume q: "q \<in> set k1" and x: "x \<in> set (cell_get s q)"
      have "q \<noteq> p" using q n1 by blast
      then have "x \<noteq> d" using donly x by blast
      with sole x show "\<not> due s x" by blast
    qed
  qed
  have cg1: "cell_get ?s1 = cell_get s" by (rule calm_cell_get[OF c1])
  have out1: "x \<notin> ?X1" if "x \<in> set (cell_get s q)" "q \<notin> set k1" for x q
  proof
    assume "x \<in> ?X1"
    then obtain q' where q': "q' \<in> set k1" "x \<in> set (cell_get s q')" by blast
    then have "q' \<noteq> q" using that(2) by blast
    from uq(2)[OF this] q'(2) that(1) show False by blast
  qed
  have o1: "objs ?s1 x = objs s x" if "x \<in> set (cell_get s q)" "q \<notin> set k1" for x q
    using c1 out1[OF that] unfolding calm_def by blast
  have bk1: "bystanders_kept s ?s1"
    by (rule fold_bystanders_kept) (rule advance_cell_bystanders_kept)
  let ?ds = "filter (is_Disturbance ?s1) (cell_get ?s1 p)"
  have od1: "objs ?s1 d = Some (Disturbance Active t)" using o1[OF dp n1] o by simp
  then have "is_Disturbance ?s1 d" by (simp add: is_Disturbance_def)
  then have "d \<in> set ?ds" using dp by (simp add: cg1)
  then obtain ds1 ds2 where sd: "?ds = ds1 @ d # ds2" by (meson split_list)
  have "distinct ?ds" using uq(1)[of p] by (simp add: cg1)
  then have m1: "d \<notin> set ds1" and m2: "d \<notin> set ds2" and dd1: "distinct ds1" and dd2: "distinct ds2"
    and d12: "set ds1 \<inter> set ds2 = {}"
    unfolding sd by auto
  have sub: "set ds1 \<subseteq> set (cell_get s p)" "set ds2 \<subseteq> set (cell_get s p)"
  proof -
    have "set ?ds \<subseteq> set (cell_get s p)" by (auto simp: cg1)
    then show "set ds1 \<subseteq> set (cell_get s p)" "set ds2 \<subseteq> set (cell_get s p)"
      unfolding sd by auto
  qed
  let ?s2 = "fold (advance_one p) ds1 ?s1"
  have c2: "calm (set ds1) ?s1 ?s2"
  proof (rule fold_advance_one_calm[OF dd1])
    show "\<forall>x \<in> set ds1. \<not> due ?s1 x"
    proof
      fix x assume x: "x \<in> set ds1"
      then have xp: "x \<in> set (cell_get s p)" using sub by blast
      have "x \<noteq> d" using x m1 by blast
      with sole xp have "\<not> due s x" by blast
      then show "\<not> due ?s1 x" using due_cong[OF o1[OF xp n1]] by simp
    qed
  qed
  have cg2: "cell_get ?s2 = cell_get s" using calm_cell_get[OF c2] cg1 by simp
  have bk2: "bystanders_kept ?s1 ?s2"
    by (rule fold_bystanders_kept) (rule advance_one_bystanders_kept)
  have h2: "is_Hostage ?s2 = is_Hostage s"
    using bystanders_kept_Hostage[OF bk1] bystanders_kept_Hostage[OF bk2] by simp
  have od2: "objs ?s2 d = Some (Disturbance Active t)"
    using c2 m1 od1 unfolding calm_def by simp
  let ?s3 = "advance_one p d ?s2"
  note st = explosion_step[OF od2 g, of p]
  have sd3: "structural_damage ?s3 = structural_damage s + 1"
    using st c1 c2 unfolding calm_def by simp
  have hl3: "hostages_lost ?s3 = hostages_lost s + int (length (filter (is_Hostage s) (cell_get s p)))"
    using st c1 c2 unfolding calm_def by (simp add: h2 cg2)
  have o3: "x \<noteq> d \<Longrightarrow> objs ?s3 x = objs ?s2 x" for x using st by simp
  have cg3: "q \<noteq> p \<Longrightarrow> cell_get ?s3 q = cell_get s q" for q
  proof -
    assume qp: "q \<noteq> p"
    have "\<forall>q. q \<noteq> p \<longrightarrow> cell_get ?s3 q = cell_get ?s2 q" using st by blast
    then have "cell_get ?s3 q = cell_get ?s2 q" using qp by blast
    then show ?thesis by (simp add: cg2)
  qed
  let ?s4 = "fold (advance_one p) ds2 ?s3"
  have c4: "calm (set ds2) ?s3 ?s4"
  proof (rule fold_advance_one_calm[OF dd2])
    show "\<forall>x \<in> set ds2. \<not> due ?s3 x"
    proof
      fix x assume x: "x \<in> set ds2"
      then have xp: "x \<in> set (cell_get s p)" using sub by blast
      have xd: "x \<noteq> d" using x m2 by blast
      have x1: "x \<notin> set ds1" using x d12 by blast
      have "objs ?s2 x = objs ?s1 x" using c2 x1 unfolding calm_def by blast
      then have "objs ?s3 x = objs s x" using o3[OF xd] o1[OF xp n1] by simp
      moreover have "\<not> due s x" using sole xp xd by blast
      ultimately show "\<not> due ?s3 x" using due_cong[of ?s3 x s] by simp
    qed
  qed
  have ac: "advance_cell p ?s1 = ?s4" by (simp add: advance_cell_def sd)
  have cg4: "q \<noteq> p \<Longrightarrow> cell_get ?s4 q = cell_get s q" for q
    using calm_cell_get[OF c4] cg3[of q] by simp
  have o4: "objs ?s4 x = objs s x" if "x \<in> set (cell_get s q)" "q \<in> set k2" for x q
  proof -
    have qp: "q \<noteq> p" using that(2) n2 by blast
    have q1: "q \<notin> set k1" using that(2) k12 by blast
    have xnp: "x \<notin> set (cell_get s p)" using uq(2)[OF qp] that(1) by blast
    then have "x \<notin> set ds2" "x \<notin> set ds1" "x \<noteq> d" using sub dp by blast+
    then have "objs ?s4 x = objs ?s1 x"
      using c4 c2 o3[of x] unfolding calm_def by simp
    then show ?thesis using o1[OF that(1) q1] by simp
  qed
  let ?s5 = "fold advance_cell k2 ?s4"
  have c5: "calm (\<Union>q \<in> set k2. set (cell_get ?s4 q)) ?s4 ?s5"
  proof (rule fold_advance_cell_calm[OF dk2])
    show "\<forall>q \<in> set k2. distinct (cell_get ?s4 q)"
    proof
      fix q assume "q \<in> set k2"
      then have "q \<noteq> p" using n2 by blast
      from cg4[OF this] uq(1)[of q] show "distinct (cell_get ?s4 q)" by simp
    qed
    show "\<forall>q \<in> set k2. \<forall>q' \<in> set k2. q \<noteq> q' \<longrightarrow> set (cell_get ?s4 q) \<inter> set (cell_get ?s4 q') = {}"
    proof (intro ballI impI)
      fix q q' assume a: "q \<in> set k2" "q' \<in> set k2" "q \<noteq> q'"
      then have "q \<noteq> p" "q' \<noteq> p" using n2 by blast+
      then have "cell_get ?s4 q = cell_get s q" "cell_get ?s4 q' = cell_get s q'" using cg4 by blast+
      with uq(2)[OF a(3)] show "set (cell_get ?s4 q) \<inter> set (cell_get ?s4 q') = {}" by simp
    qed
    show "\<forall>q \<in> set k2. \<forall>x \<in> set (cell_get ?s4 q). \<not> due ?s4 x"
    proof (intro ballI)
      fix q x assume q: "q \<in> set k2" and x: "x \<in> set (cell_get ?s4 q)"
      have qp: "q \<noteq> p" using q n2 by blast
      have xs: "x \<in> set (cell_get s q)" using x cg4[OF qp] by simp
      have "x \<noteq> d" using donly[OF qp] xs by blast
      with sole xs have "\<not> due s x" by blast
      then show "\<not> due ?s4 x" using due_cong[OF o4[OF xs q]] by simp
    qed
  qed
  have aa: "advance_all s = ?s5" by (simp add: advance_all_def sp ac)
  have "structural_damage ?s5 = structural_damage ?s3" "hostages_lost ?s5 = hostages_lost ?s3"
    using c5 c4 unfolding calm_def by simp_all
  then show ?thesis unfolding aa using sd3 hl3 by simp
qed

subsection \<open>A concrete explosion\<close>

text \<open>
  A 1 by 1 grid without agents or Gate; its cell holds an active Disturbance with
  counter 5, a Hostage and a FalseAlarm.
\<close>

definition blast_world :: "rng \<Rightarrow> model" where
  "blast_world r =
    \<lparr>width = 1, height = 1, agents = [],
     objs = [1 \<mapsto> Disturbance Active 5, 2 \<mapsto> Hostage, 3 \<mapsto> FalseAlarm],
     cell_contents = [((0, 0), [1, 2, 3])],
     walls = [(0, 0) \<mapsto> \<lparr>top_wall = True, left = True, bottom = True, right = True\<rparr>],
     entry_points = [], running = True, hostages_rescued = 0,
     hostages_lost = 0, structural_damage = 0, false_alarms_investigated = 0,
     next_entity_id = 3, turn_counter = 0, min_hidden_markers = 3, random = r,
     datacollector = []\<rparr>"

lemma advance_all_blast_world:
  "advance_all (blast_world r) =
    (blast_world r)\<lparr>objs := [1 \<mapsto> Disturbance Grave 6, 2 \<mapsto> Hostage, 3 \<mapsto> FalseAlarm],
                    cell_contents := [((0, 0), [3])], hostages_lost := 1, structural_damage := 1\<rparr>"
  by (simp add: blast_world_def advance_all_def advance_cell_def advance_one_def handle_explosion_def
        remove_entity_def cell_get_def is_Disturbance_def is_Hostage_def Let_def fun_upd_twist)

lemma advance_disturbances_blast_world:
  "advance_disturbances (blast_world (\<lambda>i. i)) =
    Some (Inr ((blast_world (\<lambda>i. Suc (Suc (Suc i))))
      \<lparr>objs := [1 \<mapsto> Disturbance Grave 6, 2 \<mapsto> Hostage, 3 \<mapsto> FalseAlarm, 4 \<mapsto> Disturbance Mild 0],
       cell_contents := [((0, 0), [3, 4])], hostages_lost := 1, structural_damage := 1,
       next_entity_id := 4\<rparr>))"
  unfolding advance_disturbances_def advance_all_blast_world
  by (simp add: blast_world_def spawn_disturbance_def random_less_005_def get_available_cell.simps
        randrange_def rng_tail_def get_contents_at_def grid_cell_def cell_get_def closed_gate_def
        is_Gate_def is_Disturbance_def get_next_id_def append_entity_def Let_def fun_upd_twist)

subsection \<open>The explosion on escalation\<close>

text \<open>
  C2. When the hazard pass advances a Disturbance that is active and whose counter
  reaches 6 or more with the increment, that same step sets its severity to grave and
  explodes its cell: \<open>structural_damage\<close> grows by exactly 1, \<open>hostages_lost\<close> grows
  by the number of Hostages in the cell, and the cell keeps its other items in order
  but no Hostage and no Disturbance, the escalated one included.

  The same holds of the whole pass \<open>advance_disturbances\<close>. The pass returns when its
  spawn draw fails, and when the draws that follow a successful spawn draw name a cell
  without a closed Gate. When the keys of \<open>cell_contents\<close> are distinct, the
  Disturbance stands once in the list of its cell and in no other, and the items of
  that cell carry identifiers that have been issued, every result of the pass has the
  Disturbance grave, none of the Hostages and Disturbances of the cell left on it, no
  Hostage on the cell, and no Disturbance on the cell but the one that the spawn at the
  end of the pass may have put there (it has the next identifier, is mild and has counter
  0, and is there only if the spawn draw succeeded); \<open>structural_damage\<close> has grown by
  at least 1 and \<open>hostages_lost\<close> by at least the number of Hostages of the cell.
  When moreover every object stands in one cell only, once, and no other Disturbance
  of the grid is due to explode, the pass has raised \<open>structural_damage\<close> by exactly 1
  and \<open>hostages_lost\<close> by exactly the number of Hostages of the cell.
\<close>

theorem explosion_on_escalation:
  assumes "objs s d = Some (Disturbance Active t)" and "t + 1 \<ge> 6"
  shows "objs (advance_one p d s) d = Some (Disturbance Grave (t + 1)) \<and>
         structural_damage (advance_one p d s) = structural_damage s + 1 \<and>
         hostages_lost (advance_one p d s) =
           hostages_lost s + int (length (filter (is_Hostage s) (cell_get s p))) \<and>
         cell_get (advance_one p d s) p =
           filter (\<lambda>r. \<not> is_Hostage s r \<and> \<not> is_Disturbance s r) (cell_get s p) \<and>
         \<not> list_ex (inst_Hostage (advance_one p d s)) (get_contents_at (advance_one p d s) p) \<and>
         \<not> list_ex (inst_Disturbance (advance_one p d s)) (get_contents_at (advance_one p d s) p) \<and>
         d \<notin> set (cell_get (advance_one p d s) p) \<and>
         (\<not> fst (random_less_005 (random s)) \<longrightarrow>
            advance_disturbances s =
              Some (Inr ((advance_all s)\<lparr>random := rng_tail (random s)\<rparr>))) \<and>
         (0 < width s \<and> 0 < height s \<and>
          (\<exists>k. \<not> cell_closed s (draw_cell (s\<lparr>random := rng_tail (random s)\<rparr>) k)) \<longrightarrow>
            (\<exists>s'. advance_disturbances s = Some (Inr s'))) \<and>
         (distinct (map fst (cell_contents s)) \<and> d \<in> set (cell_get s p) \<and>
          distinct (cell_get s p) \<and> (\<forall>q. q \<noteq> p \<longrightarrow> d \<notin> set (cell_get s q)) \<and>
          (\<forall>x \<in> set (cell_get s p). x \<le> next_entity_id s) \<longrightarrow>
            (\<forall>s'. advance_disturbances s = Some (Inr s') \<longrightarrow>
               objs s' d = Some (Disturbance Grave (t + 1)) \<and>
               (\<forall>x \<in> set (cell_get s p).
                  is_Hostage s x \<or> is_Disturbance s x \<longrightarrow> x \<notin> set (cell_get s' p)) \<and>
               \<not> list_ex (inst_Hostage s') (get_contents_at s' p) \<and>
               (\<forall>x \<in> set (cell_get s' p). is_Disturbance s' x \<longrightarrow>
                  fst (random_less_005 (random s)) \<and> x = next_entity_id s + 1 \<and>
                  x \<notin> set (cell_get s p) \<and> objs s' x = Some (Disturbance Mild 0)) \<and>
               structural_damage s + 1 \<le> structural_damage s' \<and>
               hostages_lost s + int (length (filter (is_Hostage s) (cell_get s p)))
                 \<le> hostages_lost s')) \<and>
         (distinct (map fst (cell_contents s)) \<and> distinct (concat (map snd (cell_contents s))) \<and>
          d \<in> set (cell_get s p) \<and> (\<forall>q. \<forall>x \<in> set (cell_get s q). x \<noteq> d \<longrightarrow> \<not> due s x) \<longrightarrow>
            (\<forall>s'. advance_disturbances s = Some (Inr s') \<longrightarrow>
               structural_damage s' = structural_damage s + 1 \<and>
               hostages_lost s' =
                 hostages_lost s + int (length (filter (is_Hostage s) (cell_get s p)))))"
proof -
  let ?s' = "advance_one p d s"
  note st = explosion_step[OF assms, of p]
  have dd: "is_Disturbance s d" using assms(1) by (simp add: is_Disturbance_def)
  have l: "cell_get ?s' p = filter (\<lambda>r. \<not> is_Hostage s r \<and> \<not> is_Disturbance s r) (cell_get s p)"
    using st by blast
  have nh: "\<not> list_ex (inst_Hostage ?s') (get_contents_at ?s' p)"
    using st by (auto simp: get_contents_at_def list_ex_iff l)
  have nd: "\<not> list_ex (inst_Disturbance ?s') (get_contents_at ?s' p)"
    using st by (auto simp: get_contents_at_def list_ex_iff l)
  have nm: "d \<notin> set (cell_get ?s' p)" using dd by (simp add: l)
  have o: "objs ?s' d = Some (Disturbance Grave (t + 1))" using st by simp
  have sd: "structural_damage ?s' = structural_damage s + 1" using st by blast
  have hl: "hostages_lost ?s' =
           hostages_lost s + int (length (filter (is_Hostage s) (cell_get s p)))" using st by blast
  have r1: "\<not> fst (random_less_005 (random s)) \<longrightarrow>
            advance_disturbances s =
              Some (Inr ((advance_all s)\<lparr>random := rng_tail (random s)\<rparr>))"
    using advance_disturbances_no_draw[of s] by blast
  have r2: "0 < width s \<and> 0 < height s \<and>
          (\<exists>k. \<not> cell_closed s (draw_cell (s\<lparr>random := rng_tail (random s)\<rparr>) k)) \<longrightarrow>
            (\<exists>s'. advance_disturbances s = Some (Inr s'))"
    using advance_disturbances_returns[of s] by blast
  have pass: "distinct (map fst (cell_contents s)) \<and> d \<in> set (cell_get s p) \<and>
          distinct (cell_get s p) \<and> (\<forall>q. q \<noteq> p \<longrightarrow> d \<notin> set (cell_get s q)) \<and>
          (\<forall>x \<in> set (cell_get s p). x \<le> next_entity_id s) \<longrightarrow>
            (\<forall>s'. advance_disturbances s = Some (Inr s') \<longrightarrow>
               objs s' d = Some (Disturbance Grave (t + 1)) \<and>
               (\<forall>x \<in> set (cell_get s p).
                  is_Hostage s x \<or> is_Disturbance s x \<longrightarrow> x \<notin> set (cell_get s' p)) \<and>
               \<not> list_ex (inst_Hostage s') (get_contents_at s' p) \<and>
               (\<forall>x \<in> set (cell_get s' p). is_Disturbance s' x \<longrightarrow>
                  fst (random_less_005 (random s)) \<and> x = next_entity_id s + 1 \<and>
                  x \<notin> set (cell_get s p) \<and> objs s' x = Some (Disturbance Mild 0)) \<and>
               structural_damage s + 1 \<le> structural_damage s' \<and>
               hostages_lost s + int (length (filter (is_Hostage s) (cell_get s p)))
                 \<le> hostages_lost s')"
  proof (intro impI allI)
    fix s'
    assume h: "distinct (map fst (cell_contents s)) \<and> d \<in> set (cell_get s p) \<and>
          distinct (cell_get s p) \<and> (\<forall>q. q \<noteq> p \<longrightarrow> d \<notin> set (cell_get s q)) \<and>
          (\<forall>x \<in> set (cell_get s p). x \<le> next_entity_id s)"
      and ret: "advance_disturbances s = Some (Inr s')"
    from h have h1: "distinct (map fst (cell_contents s))" and h2: "d \<in> set (cell_get s p)"
      and h3: "distinct (cell_get s p)" and h4: "\<forall>q. q \<noteq> p \<longrightarrow> d \<notin> set (cell_get s q)"
      and h5: "\<forall>x \<in> set (cell_get s p). x \<le> next_entity_id s" by blast+
    show "objs s' d = Some (Disturbance Grave (t + 1)) \<and>
               (\<forall>x \<in> set (cell_get s p).
                  is_Hostage s x \<or> is_Disturbance s x \<longrightarrow> x \<notin> set (cell_get s' p)) \<and>
               \<not> list_ex (inst_Hostage s') (get_contents_at s' p) \<and>
               (\<forall>x \<in> set (cell_get s' p). is_Disturbance s' x \<longrightarrow>
                  fst (random_less_005 (random s)) \<and> x = next_entity_id s + 1 \<and>
                  x \<notin> set (cell_get s p) \<and> objs s' x = Some (Disturbance Mild 0)) \<and>
               structural_damage s + 1 \<le> structural_damage s' \<and>
               hostages_lost s + int (length (filter (is_Hostage s) (cell_get s p)))
                 \<le> hostages_lost s'"
      by (rule advance_disturbances_explodes[OF h1 h2 h3 h4 h5 assms ret])
  qed
  have exact: "distinct (map fst (cell_contents s)) \<and> distinct (concat (map snd (cell_contents s))) \<and>
          d \<in> set (cell_get s p) \<and> (\<forall>q. \<forall>x \<in> set (cell_get s q). x \<noteq> d \<longrightarrow> \<not> due s x) \<longrightarrow>
            (\<forall>s'. advance_disturbances s = Some (Inr s') \<longrightarrow>
               structural_damage s' = structural_damage s + 1 \<and>
               hostages_lost s' =
                 hostages_lost s + int (length (filter (is_Hostage s) (cell_get s p))))"
  proof (intro impI allI)
    fix s'
    assume h: "distinct (map fst (cell_contents s)) \<and> distinct (concat (map snd (cell_contents s))) \<and>
          d \<in> set (cell_get s p) \<and> (\<forall>q. \<forall>x \<in> set (cell_get s q). x \<noteq> d \<longrightarrow> \<not> due s x)"
      and ret: "advance_disturbances s = Some (Inr s')"
    from h have h1: "distinct (map fst (cell_contents s))"
      and h2: "distinct (concat (map snd (cell_contents s)))" and h3: "d \<in> set (cell_get s p)"
      and h4: "\<forall>q. \<forall>x \<in> set (cell_get s q). x \<noteq> d \<longrightarrow> \<not> due s x" by blast+
    have sp: "spawn_disturbance (advance_all s) = Some (Inr s')"
      using ret by (simp add: advance_disturbances_def)
    from spawn_disturbance_frame[OF sp] advance_all_sole_explosion[OF h1 h2 h3 assms h4]
    show "structural_damage s' = structural_damage s + 1 \<and>
               hostages_lost s' =
                 hostages_lost s + int (length (filter (is_Hostage s) (cell_get s p)))"
      by simp
  qed
  show ?thesis using o sd hl l nh nd nm r1 r2 pass exact by blast
qed

theorem explosion_on_escalation_witness:
  "objs (advance_one (0, 1) 4 demo_model) 4 = Some (Disturbance Grave (5 + 1)) \<and>
   structural_damage (advance_one (0, 1) 4 demo_model) = structural_damage demo_model + 1 \<and>
   hostages_lost (advance_one (0, 1) 4 demo_model) = hostages_lost demo_model + 1 \<and>
   cell_get (advance_one (0, 1) 4 demo_model) (0, 1) = [] \<and>
   advance_disturbances (blast_world (\<lambda>i. 7)) =
     Some (Inr ((advance_all (blast_world (\<lambda>i. 7)))\<lparr>random := rng_tail (random (blast_world (\<lambda>i. 7)))\<rparr>)) \<and>
   (case advance_disturbances (blast_world (\<lambda>i. i)) of
      Some (Inr s') \<Rightarrow>
        objs s' 1 = Some (Disturbance Grave (5 + 1)) \<and>
        1 \<notin> set (cell_get s' (0, 0)) \<and> 2 \<notin> set (cell_get s' (0, 0)) \<and>
        \<not> list_ex (inst_Hostage s') (get_contents_at s' (0, 0)) \<and>
        cell_get s' (0, 0) = [3, 4] \<and> objs s' 4 = Some (Disturbance Mild 0) \<and>
        structural_damage s' = structural_damage (blast_world (\<lambda>i. i)) + 1 \<and>
        hostages_lost s' = hostages_lost (blast_world (\<lambda>i. i)) + 1
    | _ \<Rightarrow> False)"
proof -
  have a: "objs demo_model 4 = Some (Disturbance Active 5)" by (simp add: demo_model_def)
  have b: "(5 :: int) + 1 \<ge> 6" by simp
  have c: "cell_get demo_model (0, 1) = [4, 6]" by (simp add: demo_model_def cell_get_def)
  have d: "is_Hostage demo_model 6" "\<not> is_Hostage demo_model 4" "is_Disturbance demo_model 4"
    by (simp_all add: demo_model_def is_Hostage_def is_Disturbance_def)
  have "objs (advance_one (0, 1) 4 demo_model) 4 = Some (Disturbance Grave (5 + 1)) \<and>
        structural_damage (advance_one (0, 1) 4 demo_model) = structural_damage demo_model + 1 \<and>
        hostages_lost (advance_one (0, 1) 4 demo_model) =
          hostages_lost demo_model + int (length (filter (is_Hostage demo_model) (cell_get demo_model (0, 1)))) \<and>
        cell_get (advance_one (0, 1) 4 demo_model) (0, 1) =
          filter (\<lambda>r. \<not> is_Hostage demo_model r \<and> \<not> is_Disturbance demo_model r) (cell_get demo_model (0, 1))"
    using explosion_on_escalation[OF a b, of "(0, 1)"] by blast
  then have step: "objs (advance_one (0, 1) 4 demo_model) 4 = Some (Disturbance Grave (5 + 1)) \<and>
   structural_damage (advance_one (0, 1) 4 demo_model) = structural_damage demo_model + 1 \<and>
   hostages_lost (advance_one (0, 1) 4 demo_model) = hostages_lost demo_model + 1 \<and>
   cell_get (advance_one (0, 1) 4 demo_model) (0, 1) = []"
    using c d by simp
  let ?v = "blast_world (\<lambda>i. 7)"
  have av: "objs ?v 1 = Some (Disturbance Active 5)" by (simp add: blast_world_def)
  have nv: "\<not> fst (random_less_005 (random ?v))"
    by (simp add: blast_world_def random_less_005_def)
  have nodraw: "advance_disturbances ?v =
     Some (Inr ((advance_all ?v)\<lparr>random := rng_tail (random ?v)\<rparr>))"
    using explosion_on_escalation[OF av b, of "(0, 0)"] nv by blast
  let ?w = "blast_world (\<lambda>i. i)"
  have aw: "objs ?w 1 = Some (Disturbance Active 5)" by (simp add: blast_world_def)
  have cw: "cell_get ?w (0, 0) = [1, 2, 3]" by (simp add: blast_world_def cell_get_def)
  have ow: "\<forall>q. q \<noteq> (0, 0) \<longrightarrow> cell_get ?w q = []" by (simp add: blast_world_def cell_get_def)
  have kw: "distinct (map fst (cell_contents ?w))" "distinct (concat (map snd (cell_contents ?w)))"
    "next_entity_id ?w = 3" "0 < width ?w" "0 < height ?w"
    by (simp_all add: blast_world_def)
  have cls: "is_Hostage ?w 2" "\<not> is_Hostage ?w 1" "\<not> is_Hostage ?w 3" "is_Disturbance ?w 1"
    "\<not> due ?w 2" "\<not> due ?w 3"
    by (simp_all add: blast_world_def is_Hostage_def is_Disturbance_def due_def)
  have h1: "distinct (map fst (cell_contents ?w)) \<and> 1 \<in> set (cell_get ?w (0, 0)) \<and>
          distinct (cell_get ?w (0, 0)) \<and> (\<forall>q. q \<noteq> (0, 0) \<longrightarrow> 1 \<notin> set (cell_get ?w q)) \<and>
          (\<forall>x \<in> set (cell_get ?w (0, 0)). x \<le> next_entity_id ?w)"
    using kw cw ow by simp
  have sole: "\<forall>q. \<forall>x \<in> set (cell_get ?w q). x \<noteq> 1 \<longrightarrow> \<not> due ?w x"
  proof (intro allI ballI impI)
    fix q x assume x: "x \<in> set (cell_get ?w q)" and n: "x \<noteq> 1"
    have "q = (0, 0)" using x ow by (cases "q = (0, 0)") auto
    with x cw n have "x = 2 \<or> x = 3" by simp
    then show "\<not> due ?w x" using cls by blast
  qed
  have h2: "distinct (map fst (cell_contents ?w)) \<and> distinct (concat (map snd (cell_contents ?w))) \<and>
          1 \<in> set (cell_get ?w (0, 0)) \<and> (\<forall>q. \<forall>x \<in> set (cell_get ?w q). x \<noteq> 1 \<longrightarrow> \<not> due ?w x)"
    using kw cw sole by simp
  have "\<not> cell_closed ?w (draw_cell (?w\<lparr>random := rng_tail (random ?w)\<rparr>) 0)"
    by (simp add: blast_world_def world_eval)
  then have h3: "0 < width ?w \<and> 0 < height ?w \<and>
          (\<exists>k. \<not> cell_closed ?w (draw_cell (?w\<lparr>random := rng_tail (random ?w)\<rparr>) k))"
    using kw by blast
  note th = explosion_on_escalation[OF aw b, of "(0, 0)"]
  from th h3 obtain s' where ret: "advance_disturbances ?w = Some (Inr s')" by blast
  from th h1 ret have p1: "objs s' 1 = Some (Disturbance Grave (5 + 1)) \<and>
               (\<forall>x \<in> set (cell_get ?w (0, 0)).
                  is_Hostage ?w x \<or> is_Disturbance ?w x \<longrightarrow> x \<notin> set (cell_get s' (0, 0))) \<and>
               \<not> list_ex (inst_Hostage s') (get_contents_at s' (0, 0))"
    by blast
  from th h2 ret have p2: "structural_damage s' = structural_damage ?w + 1 \<and>
               hostages_lost s' =
                 hostages_lost ?w + int (length (filter (is_Hostage ?w) (cell_get ?w (0, 0))))"
    by blast
  have s': "s' = (blast_world (\<lambda>i. Suc (Suc (Suc i))))
      \<lparr>objs := [1 \<mapsto> Disturbance Grave 6, 2 \<mapsto> Hostage, 3 \<mapsto> FalseAlarm, 4 \<mapsto> Disturbance Mild 0],
       cell_contents := [((0, 0), [3, 4])], hostages_lost := 1, structural_damage := 1,
       next_entity_id := 4\<rparr>"
    using ret unfolding advance_disturbances_blast_world by simp
  have e: "cell_get s' (0, 0) = [3, 4]" "objs s' 4 = Some (Disturbance Mild 0)"
    unfolding s' by (simp_all add: cell_get_def)
  have pass: "objs s' 1 = Some (Disturbance Grave (5 + 1)) \<and>
        1 \<notin> set (cell_get s' (0, 0)) \<and> 2 \<notin> set (cell_get s' (0, 0)) \<and>
        \<not> list_ex (inst_Hostage s') (get_contents_at s' (0, 0)) \<and>
        cell_get s' (0, 0) = [3, 4] \<and> objs s' 4 = Some (Disturbance Mild 0) \<and>
        structural_damage s' = structural_damage ?w + 1 \<and>
        hostages_lost s' = hostages_lost ?w + 1"
    using p1 p2 e cw cls by simp
  show ?thesis using step nodraw pass by (simp add: ret)
qed


section \<open>Hazard spawning without an available cell\<close>







end
